theory Spec2Isabelle
  imports Complex_Main "HOL-Library.Char_ord" "HOL-Library.List_Lexorder" "HOL-Library.Multiset"
begin

section \<open>Python values and exceptions\<close>

text \<open>
  The exceptions that the modelled code can raise. A function that may raise returns
  \<open>py_error + 'a\<close>, with \<open>Inl\<close> for the exception.
\<close>

datatype py_error = IndexError | KeyError | TypeError | ValueError | OverflowError | InvalidSpan

text \<open>
  What \<^verbatim>\<open>utils.parse_spelled_number\<close> can hand back: \<^verbatim>\<open>None\<close>, an \<^verbatim>\<open>int\<close> or a
  \<^verbatim>\<open>float\<close>. A finite float is the real number it denotes; \<^verbatim>\<open>nan\<close> and the two
  infinities are values of their own (\<open>PyInf True\<close> is \<^verbatim>\<open>+inf\<close>).
\<close>

datatype pyval = PyNone | PyInt int | PyFloat real | PyNaN | PyInf bool

text \<open>Python's \<^verbatim>\<open>int(x)\<close>: truncation towards zero, and the exceptions of the other cases.\<close>

fun py_int :: "pyval \<Rightarrow> py_error + int" where
  "py_int PyNone = Inl TypeError"
| "py_int (PyInt i) = Inr i"
| "py_int (PyFloat r) = Inr (if 0 \<le> r then \<lfloor>r\<rfloor> else \<lceil>r\<rceil>)"
| "py_int PyNaN = Inl ValueError"
| "py_int (PyInf b) = Inl OverflowError"

text \<open>The number a finite numeric value denotes.\<close>

fun py_number :: "pyval \<Rightarrow> real option" where
  "py_number (PyInt i) = Some (of_int i)"
| "py_number (PyFloat r) = Some r"
| "py_number PyNone = None"
| "py_number PyNaN = None"
| "py_number (PyInf b) = None"

section \<open>\<^verbatim>\<open>is_valid_count\<close> (count_annotator.py, lines 48-65)\<close>

text \<open>
  \<^verbatim>\<open>utils.parse_spelled_number\<close> is not part of the sources at hand and the specification
  treats numeric-string parsing as an external collaborator, so it is the parameter
  \<open>parse_spelled_number\<close>. The second component of the result is what the call writes to
  the logger.

  The order of the source is kept: the parser is called first, then \<^verbatim>\<open>count_string[0]\<close>
  is read (an \<^verbatim>\<open>IndexError\<close> on the empty string), then \<^verbatim>\<open>int(value)\<close> is tried with
  \<^verbatim>\<open>TypeError\<close> and \<^verbatim>\<open>ValueError\<close> caught, and last the size is checked.
\<close>

definition is_valid_count :: "(string \<Rightarrow> pyval) \<Rightarrow> string \<Rightarrow> (py_error + bool) \<times> string list" where
  "is_valid_count parse_spelled_number count_string =
     (let val = parse_spelled_number count_string in
      case count_string of
        [] \<Rightarrow> (Inl IndexError, [])
      | c # _ \<Rightarrow>
          if c = CHR ''0'' then (Inr False, [])
          else (case py_int val of
                  Inl e \<Rightarrow>
                    if e = TypeError \<or> e = ValueError
                    then (Inr False, [''Cannot parse count string: '' @ count_string])
                    else (Inl e, [])
                | Inr n \<Rightarrow>
                    if py_number val \<noteq> Some (of_int n) then (Inr False, [])
                    else if (case py_number val of Some r \<Rightarrow> r > 1000000000 | None \<Rightarrow> False)
                    then (Inr False, [])
                    else (Inr True, [])))"

section \<open>Spans\<close>

text \<open>
  The classes \<^verbatim>\<open>AnnoSpan\<close>, \<^verbatim>\<open>SpanGroup\<close> and \<^verbatim>\<open>AnnoTier\<close> and the module
  \<^verbatim>\<open>result_aggregators\<close> are not among the sources at hand; what \<^verbatim>\<open>count_annotator.py\<close>
  uses of them is modelled from the specification, each such definition marked.

  A span is a leaf with its two offsets and its label, or a group of constituent spans
  with an optional label (its role). Offsets are character positions of the document's
  text, which the functions below take as an argument where the source reads
  \<^verbatim>\<open>span.doc.text\<close>. A tier is a list of spans.
\<close>

datatype span = AnnoSpan nat nat "string option" | SpanGroup "span list" "string option"

fun min_of :: "nat list \<Rightarrow> nat" where
  "min_of [] = 0"
| "min_of [x] = x"
| "min_of (x # y # ys) = min x (min_of (y # ys))"

fun max_of :: "nat list \<Rightarrow> nat" where
  "max_of [] = 0"
| "max_of (x # xs) = max x (max_of xs)"

text \<open>
  Modelled from the spec: the extent of \<^verbatim>\<open>SpanGroup\<close>, missing from the sources
  (section 3: "Its own interval is the union of constituents' extents"): from the least
  start to the greatest end of the constituents.
\<close>

fun span_start :: "span \<Rightarrow> nat" where
  "span_start (AnnoSpan s e l) = s"
| "span_start (SpanGroup bs l) = min_of (map span_start bs)"

fun span_end :: "span \<Rightarrow> nat" where
  "span_end (AnnoSpan s e l) = e"
| "span_end (SpanGroup bs l) = max_of (map span_end bs)"

fun span_label :: "span \<Rightarrow> string option" where
  "span_label (AnnoSpan s e l) = l"
| "span_label (SpanGroup bs l) = l"

text \<open>
  Modelled from the spec: the constructor of \<^verbatim>\<open>AnnoSpan\<close>, missing from the sources
  (section 4.1: "constructor validation (start>end is rejected)"; section 7: "fail
  immediately at construction, never silently clamp").
\<close>

definition AnnoSpan_init :: "nat \<Rightarrow> nat \<Rightarrow> py_error + span" where
  "AnnoSpan_init s e = (if s > e then Inl InvalidSpan else Inr (AnnoSpan s e None))"

text \<open>
  Modelled from the spec: \<^verbatim>\<open>AnnoSpan.text\<close>, missing from the sources (section 4.1:
  "substring lookup against the owning document"): the slice \<^verbatim>\<open>doc.text[start:end]\<close>,
  empty when \<^verbatim>\<open>start >= end\<close>.
\<close>

definition span_text :: "string \<Rightarrow> span \<Rightarrow> string" where
  "span_text txt s = take (span_end s - span_start s) (drop (span_start s) txt)"

text \<open>
  Modelled from the spec: \<^verbatim>\<open>overlaps\<close>, \<^verbatim>\<open>contains\<close> and \<^verbatim>\<open>distance\<close> of
  \<^verbatim>\<open>AnnoSpan\<close>, missing from the sources (section 3: a span is a half-open interval;
  section 4.1: distance is "zero if overlapping, else gap in offsets").
\<close>

definition overlaps :: "span \<Rightarrow> span \<Rightarrow> bool" where
  "overlaps a b = (span_start a < span_end b \<and> span_start b < span_end a)"

definition contains :: "span \<Rightarrow> span \<Rightarrow> bool" where
  "contains a b = (span_start a \<le> span_start b \<and> span_end b \<le> span_end a)"

definition distance :: "span \<Rightarrow> span \<Rightarrow> nat" where
  "distance a b =
     (if overlaps a b then 0
      else if span_end a \<le> span_start b then span_start b - span_end a
      else span_start a - span_end b)"

text \<open>
  Modelled from the spec: \<^verbatim>\<open>SpanGroup.groupdict\<close>, missing from the sources (section 3:
  the metadata of a composite span "records each constituent under a role key, and
  repeated matches of the same role accumulate as an ordered list"). \<open>groupdict m k\<close>
  is the list stored under the key \<open>k\<close>; the key is in the dictionary when the list is
  not empty. The constituents' entries come first, in their order, then the span
  itself under its own label.
\<close>

fun groupdict :: "span \<Rightarrow> string \<Rightarrow> span list" where
  "groupdict (AnnoSpan s e l) k = []"
| "groupdict (SpanGroup bs l) k =
     concat (map (\<lambda>b. groupdict b k) bs) @ (if l = Some k then [SpanGroup bs l] else [])"

section \<open>Tier operations and combinators\<close>

text \<open>
  Modelled from the spec: \<^verbatim>\<open>AnnoTier.without_overlaps\<close>, missing from the sources
  (section 4.2: "returns only Spans from self that do not overlap any Span in
  other_tier").
\<close>

definition without_overlaps :: "span list \<Rightarrow> span list \<Rightarrow> span list" where
  "without_overlaps tier other_tier = filter (\<lambda>s. \<not> list_ex (overlaps s) other_tier) tier"

text \<open>
  Modelled from the spec: \<^verbatim>\<open>AnnoTier.group_spans_by_containing_span\<close>, missing from the
  sources (section 4.2: "for every Span in the tier, collect all candidate_spans whose
  extent lies within it (or merely overlaps it, if partial containment is allowed)";
  a container with an empty group is still yielded).
\<close>

definition group_spans_by_containing_span :: "span list \<Rightarrow> span list \<Rightarrow> bool \<Rightarrow> (span \<times> span list) list" where
  "group_spans_by_containing_span tier candidate_spans allow_partial_containment =
     map (\<lambda>s. (s, filter (\<lambda>c. if allow_partial_containment then overlaps s c else contains s c)
                    candidate_spans)) tier"

text \<open>
  Modelled from the spec: \<^verbatim>\<open>AnnoTier.with_nearby_spans_from\<close>, missing from the sources
  (section 4.2: for each span of the tier the spans of the other tier within
  \<^verbatim>\<open>max_dist\<close> are merged with it into one composite span; several qualifying spans
  "accumulate into the same role's list rather than producing a cross product").
\<close>

definition with_nearby_spans_from :: "nat \<Rightarrow> span list \<Rightarrow> span list \<Rightarrow> span list" where
  "with_nearby_spans_from max_dist tier other_tier =
     concat (map (\<lambda>s. case filter (\<lambda>t. distance s t \<le> max_dist) other_tier of
                         [] \<Rightarrow> []
                       | t # ts \<Rightarrow> [SpanGroup (s # t # ts) None]) tier)"

text \<open>
  Modelled from the spec: \<^verbatim>\<open>result_aggregators.label\<close>, missing from the sources
  (section 4.4: "tags every input Span with role name in its metadata (non-destructive
  wrap)").
\<close>

definition label :: "string option \<Rightarrow> span list \<Rightarrow> span list" where
  "label name spans = map (\<lambda>s. SpanGroup [s] name) spans"

text \<open>
  Modelled from the spec: \<^verbatim>\<open>result_aggregators.follows\<close>, missing from the sources
  (section 4.4: a composite span "for every chain (s1 in T1, s2 in T2, ...) such that s1
  ends at or before s2 starts (optionally within a maximum gap ...) and so on
  transitively"). The specification gives no value for the default gap, so it is the
  argument \<open>max_dist\<close>.
\<close>

fun chains :: "nat \<Rightarrow> span list list \<Rightarrow> span list list" where
  "chains max_dist [] = []"
| "chains max_dist [T] = map (\<lambda>s. [s]) T"
| "chains max_dist (T # U # Ts) =
     concat (map (\<lambda>s. map ((#) s)
                     (filter (\<lambda>c. case c of [] \<Rightarrow> False
                                   | s2 # _ \<Rightarrow> span_end s \<le> span_start s2 \<and>
                                               span_start s2 - span_end s \<le> max_dist)
                        (chains max_dist (U # Ts)))) T)"

definition follows :: "nat \<Rightarrow> span list list \<Rightarrow> span list" where
  "follows max_dist tier_sequence = map (\<lambda>c. SpanGroup c None) (chains max_dist tier_sequence)"

section \<open>The overlap resolver\<close>

text \<open>
  Modelled from the spec: \<^verbatim>\<open>AnnoTier.optimal_span_set\<close>, missing from the sources
  (section 4.3). The three steps of the specification:
  \<^enum> the spans are partitioned into overlap-connected components: each span joins, and
    thereby merges, the components it overlaps;
  \<^enum> within a component the spans are sorted by end offset and the dynamic program of
    weighted interval scheduling runs over them: the score at a span is the best score
    among the spans ending at or before its start, plus its own weight; a span is
    taken only when that beats leaving it out, so a tie goes to the spans ending earlier;
  \<^enum> the selected spans of all components are put back in their original order.

  The preference is the weight function \<open>prefer\<close>. A span is paired with its position
  in the tier, which stands for its identity: a tier may hold equal spans twice.
\<close>

definition overlaps_component :: "nat \<times> span \<Rightarrow> (nat \<times> span) list \<Rightarrow> bool" where
  "overlaps_component s c = list_ex (\<lambda>t. overlaps (snd s) (snd t)) c"

definition add_to_components :: "nat \<times> span \<Rightarrow> (nat \<times> span) list list \<Rightarrow> (nat \<times> span) list list" where
  "add_to_components s comps =
     (concat (filter (overlaps_component s) comps) @ [s]) #
     filter (\<lambda>c. \<not> overlaps_component s c) comps"

definition overlap_components :: "(nat \<times> span) list \<Rightarrow> (nat \<times> span) list list" where
  "overlap_components xs = fold add_to_components xs []"

fun best_selection :: "(span \<Rightarrow> nat) \<Rightarrow> (nat \<times> span) list \<Rightarrow> nat \<times> (nat \<times> span) list" where
  "best_selection prefer [] = (0, [])"
| "best_selection prefer (s # earlier) =
     (let without = best_selection prefer earlier;
          prior = best_selection prefer
                     (filter (\<lambda>t. span_end (snd t) \<le> span_start (snd s)) earlier)
      in if fst without < fst prior + prefer (snd s)
         then (fst prior + prefer (snd s), snd prior @ [s])
         else without)"

text \<open>Two components are separated when no span of one overlaps a span of the other.\<close>

definition separated :: "(nat \<times> span) list \<Rightarrow> (nat \<times> span) list \<Rightarrow> bool" where
  "separated c c' = (\<forall>p \<in> set c. \<forall>q \<in> set c'. \<not> overlaps (snd p) (snd q))"

definition optimal_span_set :: "(span \<Rightarrow> nat) \<Rightarrow> span list \<Rightarrow> span list" where
  "optimal_span_set prefer tier =
     map snd (sort_key fst
       (concat (map (\<lambda>c. snd (best_selection prefer (rev (sort_key (\<lambda>t. span_end (snd t)) c))))
                  (overlap_components (enumerate 0 tier)))))"

text \<open>
  Two weight functions for the scenarios below: the length of the covered text, and the
  number of leaf spans a match is built from.
\<close>

definition text_length :: "span \<Rightarrow> nat" where
  "text_length s = span_end s - span_start s"

fun num_spans :: "span \<Rightarrow> nat" where
  "num_spans (AnnoSpan s e l) = 1"
| "num_spans (SpanGroup bs l) = sum_list (map num_spans bs)"

section \<open>Regular expressions of the source\<close>

text \<open>
  The whitespace class \<^verbatim>\<open>\s\<close> on ASCII text: space, tab, line feed, vertical tab, form
  feed and carriage return.
\<close>

definition is_space :: "char \<Rightarrow> bool" where
  "is_space c = (c = CHR '' '' \<or> c = CHR 0x09 \<or> c = CHR 0x0A \<or> c = CHR 0x0B \<or> c = CHR 0x0C \<or> c = CHR 0x0D)"

fun strip_prefix :: "string \<Rightarrow> string \<Rightarrow> string option" where
  "strip_prefix [] s = Some s"
| "strip_prefix (p # ps) [] = None"
| "strip_prefix (p # ps) (c # cs) = (if p = c then strip_prefix ps cs else None)"

text \<open>
  The length of the match of \<^verbatim>\<open>\s(?:to|and|or)\s\<close> at the head of a string, if there is
  one (line 93; the expression is compiled without flags, so it is case sensitive).
\<close>

definition joiner_match :: "string \<Rightarrow> nat option" where
  "joiner_match s =
     (case s of
        [] \<Rightarrow> None
      | c # rest \<Rightarrow>
          if \<not> is_space c then None
          else (case filter (\<lambda>w. case strip_prefix w rest of
                                     Some (d # _) \<Rightarrow> is_space d
                                   | _ \<Rightarrow> False) [''to'', ''and'', ''or''] of
                  [] \<Rightarrow> None
                | w # _ \<Rightarrow> Some (length w + 2)))"

text \<open>
  \<^verbatim>\<open>[m.span() for m in re.finditer(..., text)]\<close>: the matches from left to right, each
  search starting where the previous match ended. \<open>pos\<close> is the offset of the head of the
  string and \<open>skip\<close> the number of characters still inside the previous match.
\<close>

fun finditer_joiner :: "nat \<Rightarrow> nat \<Rightarrow> string \<Rightarrow> (nat \<times> nat) list" where
  "finditer_joiner pos skip [] = []"
| "finditer_joiner pos skip (c # cs) =
     (if 0 < skip then finditer_joiner (pos + 1) (skip - 1) cs
      else (case joiner_match (c # cs) of
              None \<Rightarrow> finditer_joiner (pos + 1) 0 cs
            | Some n \<Rightarrow> (pos, pos + n) # finditer_joiner (pos + 1) (n - 1) cs))"

text \<open>
  \<^verbatim>\<open>search_spans_for_regex\<close> compiles \<^verbatim>\<open>'^' + regex_term + '$'\<close> with \<^verbatim>\<open>re.I\<close> and calls
  \<^verbatim>\<open>match\<close>, which looks for a match at the start of the text. In the model a compiled
  expression is the predicate of the texts it matches; the five terms that \<^verbatim>\<open>annotate\<close>
  passes are written out below. An alternation binds weaker than the anchors, so in
  \<^verbatim>\<open>^to|and|or$\<close> only the first alternative carries \<^verbatim>\<open>^\<close> and only the last carries
  \<^verbatim>\<open>$\<close>: a text that begins with "to" or with "and" matches. \<^verbatim>\<open>$\<close> matches at the end of
  the text and before a line feed that ends it.
\<close>

definition lower_char :: "char \<Rightarrow> char" where
  "lower_char c =
     (let n = (of_char c :: nat) in if 65 \<le> n \<and> n \<le> 90 then char_of (n + 32) else c)"

definition begins_with :: "string \<Rightarrow> string \<Rightarrow> bool" where
  "begins_with w s = (strip_prefix w (map lower_char s) \<noteq> None)"

definition ends_here :: "string option \<Rightarrow> bool" where
  "ends_here r = (r = Some [] \<or> r = Some [CHR 0x0A])"

definition is_exactly :: "string \<Rightarrow> string \<Rightarrow> bool" where
  "is_exactly w s = ends_here (strip_prefix w (map lower_char s))"

definition regex_to_and_or :: "string \<Rightarrow> bool" where
  "regex_to_and_or s = (begins_with ''to'' s \<or> begins_with ''and'' s \<or> is_exactly ''or'' s)"

definition regex_age :: "string \<Rightarrow> bool" where
  "regex_age s = is_exactly ''age'' s"

definition regex_of :: "string \<Rightarrow> bool" where
  "regex_of s = is_exactly ''of'' s"

definition regex_kilometers :: "string \<Rightarrow> bool" where
  "regex_kilometers s =
     (begins_with ''kilometers'' s \<or> begins_with ''km'' s \<or> begins_with ''miles'' s \<or>
      is_exactly ''mi'' s)"

text \<open>\<^verbatim>\<open>^deaths(\s?:)?$\<close>: "deaths", then optionally a colon with at most one whitespace before it.\<close>

definition regex_deaths :: "string \<Rightarrow> bool" where
  "regex_deaths s =
     (case strip_prefix ''deaths'' (map lower_char s) of
        None \<Rightarrow> False
      | Some r \<Rightarrow>
          ends_here (Some r) \<or>
          (case r of
             c # r' \<Rightarrow>
               (c = CHR '':'' \<and> ends_here (Some r')) \<or>
               (is_space c \<and> (case r' of d # r'' \<Rightarrow> d = CHR '':'' \<and> ends_here (Some r'') | [] \<Rightarrow> False))
           | [] \<Rightarrow> False))"

text \<open>\<^verbatim>\<open>search_spans_for_regex\<close> (lines 68-74).\<close>

definition search_spans_for_regex :: "(string \<Rightarrow> bool) \<Rightarrow> string \<Rightarrow> span list \<Rightarrow> span list" where
  "search_spans_for_regex regex txt spans = filter (\<lambda>sp. regex (span_text txt sp)) spans"

section \<open>Documents\<close>

text \<open>
  What \<^verbatim>\<open>annotate\<close> reads of a document: its text and the tiers of the linguistic front
  end, whose spans are leaves. A token carries the attributes of the spaCy token that the source reads:
  \<^verbatim>\<open>lemma_\<close>, \<^verbatim>\<open>tag_\<close>, and \<^verbatim>\<open>lower_\<close> of each of its children. A sentence carries its similarity
  to each of the reference sentences \<^verbatim>\<open>case_count_senses\<close> and
  \<^verbatim>\<open>non_case_count_senses\<close>, which the front end computes.
\<close>

record token =
  token_start :: nat
  token_end :: nat
  token_lemma :: string
  token_tag :: string
  token_children :: "string list"

record entity =
  ne_start :: nat
  ne_end :: nat
  ne_label :: string

record sentence =
  sentence_start :: nat
  sentence_end :: nat
  case_count_similarity :: "real list"
  non_case_count_similarity :: "real list"

record doc =
  doc_text :: string
  spacy_tokens :: "token list"
  spacy_sentences :: "sentence list"
  spacy_nes :: "entity list"
  dates :: "span list"

text \<open>The spans of the tiers \<^verbatim>\<open>spacy.tokens\<close>, \<^verbatim>\<open>spacy.nes\<close> and \<^verbatim>\<open>spacy.sentences\<close>.\<close>

definition token_span :: "token \<Rightarrow> span" where
  "token_span t = AnnoSpan (token_start t) (token_end t) None"

definition ne_span_of :: "entity \<Rightarrow> span" where
  "ne_span_of n = AnnoSpan (ne_start n) (ne_end n) (Some (ne_label n))"

definition sentence_span :: "sentence \<Rightarrow> span" where
  "sentence_span s = AnnoSpan (sentence_start s) (sentence_end s) None"

text \<open>
  What the sources at hand leave open: the number parser (external), the weight of the
  default preference of \<^verbatim>\<open>optimal_span_set\<close> and of \<^verbatim>\<open>prefer='num_spans'\<close>, and the
  default distances of \<^verbatim>\<open>follows\<close> and \<^verbatim>\<open>with_nearby_spans_from\<close>.
\<close>

record config =
  parse_spelled_number :: "string \<Rightarrow> pyval"
  prefer_default :: "span \<Rightarrow> nat"
  prefer_num_spans :: "span \<Rightarrow> nat"
  follows_max_dist :: nat
  nearby_max_dist :: nat

section \<open>\<^verbatim>\<open>CountSpan\<close> (count_annotator.py, lines 34-45)\<close>

record count_metadata =
  md_text :: string
  md_attributes :: "string list"
  md_count :: pyval

record CountSpan =
  cs_start :: nat
  cs_end :: nat
  cs_doc :: string
  cs_label :: string
  cs_metadata :: count_metadata

text \<open>
  \<^verbatim>\<open>CountSpan.__init__\<close> copies the offsets and the document of the span it is given and
  takes the span's text as label; it calls no other constructor and checks nothing.
\<close>

definition CountSpan_init :: "string \<Rightarrow> span \<Rightarrow> count_metadata \<Rightarrow> CountSpan" where
  "CountSpan_init txt sp md =
     \<lparr>cs_start = span_start sp, cs_end = span_end sp, cs_doc = txt,
      cs_label = span_text txt sp, cs_metadata = md\<rparr>"

text \<open>
  Modelled from the spec: \<^verbatim>\<open>overlaps\<close> as \<^verbatim>\<open>CountSpan\<close> inherits it from \<^verbatim>\<open>AnnoSpan\<close>
  (half-open intervals, as for \<open>overlaps\<close> above).
\<close>

definition CountSpan_overlaps :: "CountSpan \<Rightarrow> CountSpan \<Rightarrow> bool" where
  "CountSpan_overlaps a b = (cs_start a < cs_end b \<and> cs_start b < cs_end a)"

datatype pyobj = PyNum pyval | PyStr string | PyStrList "string list"

text \<open>
  Modelled from the spec: \<^verbatim>\<open>AnnoSpan.to_dict\<close>, missing from the sources (section 4.1:
  "serializes offsets, label, text, and metadata"; section 6 names the keys \<^verbatim>\<open>start\<close>,
  \<^verbatim>\<open>end\<close>, \<^verbatim>\<open>text\<close> and \<^verbatim>\<open>label\<close>).
\<close>

definition AnnoSpan_to_dict :: "CountSpan \<Rightarrow> (string \<rightharpoonup> pyobj)" where
  "AnnoSpan_to_dict c =
     [''start'' \<mapsto> PyNum (PyInt (int (cs_start c))),
      ''end'' \<mapsto> PyNum (PyInt (int (cs_end c))),
      ''label'' \<mapsto> PyStr (cs_label c),
      ''text'' \<mapsto> PyStr (take (cs_end c - cs_start c) (drop (cs_start c) (cs_doc c)))]"

text \<open>\<^verbatim>\<open>CountSpan.to_dict\<close> (lines 42-45): the dictionary of the base class, updated with the metadata.\<close>

definition to_dict :: "CountSpan \<Rightarrow> (string \<rightharpoonup> pyobj)" where
  "to_dict c =
     AnnoSpan_to_dict c ++
     [''text'' \<mapsto> PyStr (md_text (cs_metadata c)),
      ''attributes'' \<mapsto> PyStrList (md_attributes (cs_metadata c)),
      ''count'' \<mapsto> PyNum (md_count (cs_metadata c))]"

section \<open>\<^verbatim>\<open>CountAnnotator.annotate\<close> (count_annotator.py, lines 78-284)\<close>

subsection \<open>Count candidates (lines 86-101)\<close>

definition ne_counts :: "(string \<Rightarrow> pyval) \<Rightarrow> string \<Rightarrow> span \<Rightarrow> py_error + span list" where
  "ne_counts psn txt ne_span =
     (if span_label ne_span = Some ''QUANTITY'' \<or> span_label ne_span = Some ''CARDINAL'' then
        (case fst (is_valid_count psn (span_text txt ne_span)) of
           Inl e \<Rightarrow> Inl e
         | Inr True \<Rightarrow> Inr [SpanGroup [ne_span] (Some ''count'')]
         | Inr False \<Rightarrow>
             (case finditer_joiner 0 0 (span_text txt ne_span) of
                [(a, b)] \<Rightarrow>
                  (case AnnoSpan_init (span_start ne_span) (span_start ne_span + a) of
                     Inl e \<Rightarrow> Inl e
                   | Inr range_start \<Rightarrow>
                  (case AnnoSpan_init (span_start ne_span + b) (span_end ne_span) of
                     Inl e \<Rightarrow> Inl e
                   | Inr range_end \<Rightarrow>
                  (case fst (is_valid_count psn (span_text txt range_start)) of
                     Inl e \<Rightarrow> Inl e
                   | Inr v1 \<Rightarrow>
                  (case fst (is_valid_count psn (span_text txt range_end)) of
                     Inl e \<Rightarrow> Inl e
                   | Inr v2 \<Rightarrow>
                       Inr ((if v1 then [SpanGroup [range_start] (Some ''count'')] else []) @
                            (if v2 then [SpanGroup [range_end] (Some ''count'')] else []))))))
              | _ \<Rightarrow> Inr []))
      else Inr [])"

fun count_candidates :: "(string \<Rightarrow> pyval) \<Rightarrow> string \<Rightarrow> span list \<Rightarrow> py_error + span list" where
  "count_candidates psn txt [] = Inr []"
| "count_candidates psn txt (ne_span # rest) =
     (case ne_counts psn txt ne_span of
        Inl e \<Rightarrow> Inl e
      | Inr cs \<Rightarrow>
          (case count_candidates psn txt rest of
             Inl e \<Rightarrow> Inl e
           | Inr ds \<Rightarrow> Inr (cs @ ds)))"

subsection \<open>Searching the tokens (lines 103-115)\<close>

definition search_regex :: "doc \<Rightarrow> (string \<Rightarrow> bool) \<Rightarrow> string option \<Rightarrow> span list" where
  "search_regex d regex match_name =
     label match_name (search_spans_for_regex regex (doc_text d) (map token_span (spacy_tokens d)))"

definition search_lemmas :: "doc \<Rightarrow> string list \<Rightarrow> string option \<Rightarrow> span list" where
  "search_lemmas d lemmas match_name =
     label match_name (map token_span (filter (\<lambda>t. token_lemma t \<in> set lemmas) (spacy_tokens d)))"

subsection \<open>Ranges and the removal of ages, distances and dates (lines 117-130)\<close>

definition counts_tier_of :: "config \<Rightarrow> doc \<Rightarrow> span list \<Rightarrow> span list" where
  "counts_tier_of cfg d counts =
     (let ranges = follows (follows_max_dist cfg)
                     [counts,
                      label (Some ''range'')
                        (follows (follows_max_dist cfg) [search_regex d regex_to_and_or None, counts])];
          counts_tier = optimal_span_set (prefer_default cfg) (ranges @ counts);
          counts_tier1 = without_overlaps counts_tier
                           (follows (follows_max_dist cfg)
                              [search_regex d regex_age None, search_regex d regex_of None, counts]);
          counts_tier2 = without_overlaps counts_tier1
                           (follows (follows_max_dist cfg) [counts, search_regex d regex_kilometers None])
      in without_overlaps counts_tier2 (dates d))"

subsection \<open>Modifiers (lines 131-146)\<close>

text \<open>The groups of line 131 to 141, each already split at the bars.\<close>

definition modifier_lemma_groups :: "string list list" where
  "modifier_lemma_groups =
     [[''average'', ''mean''],
      [''annual'', ''annually''],
      [''monthly''],
      [''weekly''],
      [''cumulative'', ''total'', ''already''],
      [''incremental'', ''new'', ''additional'', ''recent''],
      [''max'', ''less'', ''below'', ''under'', ''most'', ''maximum'', ''up''],
      [''min'', ''greater'', ''above'', ''over'', ''least'', ''minimum'', ''down'', ''exceeds''],
      [''approximate'', ''about'', ''near'', ''around'']]"

definition count_descriptions_of :: "config \<Rightarrow> doc \<Rightarrow> span list \<Rightarrow> span list" where
  "count_descriptions_of cfg d counts_tier =
     fold (\<lambda>lemmas count_descriptions.
             count_descriptions @
             with_nearby_spans_from (nearby_max_dist cfg) count_descriptions
               (search_lemmas d lemmas (Some (hd lemmas))))
          modifier_lemma_groups counts_tier"

subsection \<open>Case descriptions (lines 147-182)\<close>

definition case_descriptions_of :: "config \<Rightarrow> doc \<Rightarrow> span list" where
  "case_descriptions_of cfg d =
     (let case_descriptions =
            label (Some ''death'')
              (search_lemmas d [''death'', ''die'', ''kill'', ''claim'', ''fatality'', ''deceased''] None) @
            label (Some ''hospitalization'')
              (search_lemmas d [''hospital'', ''hospitalize''] None) @
            label (Some ''case'')
              (search_lemmas d [''case'', ''infect'', ''infection'', ''stricken''] None);
          case_statuses =
            search_lemmas d [''suspect''] (Some ''suspected'') @
            search_lemmas d [''confirm''] (Some ''confirmed'');
          case_descriptions1 =
            optimal_span_set (prefer_default cfg)
              (follows (follows_max_dist cfg) [case_statuses, case_descriptions] @ case_descriptions);
          person_descriptions =
            search_lemmas d [''adult'', ''senior'', ''patient'', ''life'', ''child'', ''person'']
              (Some ''case'')
      in case_descriptions1 @ person_descriptions @
         with_nearby_spans_from (nearby_max_dist cfg) person_descriptions case_descriptions1)"

subsection \<open>Singular case reports (lines 183-216)\<close>

definition singular_case_spans_of :: "doc \<Rightarrow> span list" where
  "singular_case_spans_of d =
     map token_span
       (filter (\<lambda>t. token_lemma t \<in> set [''case'', ''fatality'', ''death'', ''hospitalization''] \<and>
                     token_tag t = ''NN'' \<and>
                     list_ex (\<lambda>c. c \<in> set [''a'', ''an'', ''the'']) (token_children t))
          (spacy_tokens d))"

text \<open>Python's \<^verbatim>\<open>max\<close> of a sequence, which raises \<^verbatim>\<open>ValueError\<close> when it is empty.\<close>

fun py_max :: "real list \<Rightarrow> py_error + real" where
  "py_max [] = Inl ValueError"
| "py_max (x # xs) = Inr (fold max xs x)"

fun word_sense_filter :: "(sentence \<times> span list) list \<Rightarrow> py_error + span list" where
  "word_sense_filter [] = Inr []"
| "word_sense_filter ((sent, grp) # rest) =
     (if grp = [] then word_sense_filter rest
      else (case py_max (case_count_similarity sent) of
              Inl e \<Rightarrow> Inl e
            | Inr case_count_sence_similary \<Rightarrow>
          (case py_max (non_case_count_similarity sent) of
              Inl e \<Rightarrow> Inl e
            | Inr non_case_count_sence_similary \<Rightarrow>
          (case word_sense_filter rest of
              Inl e \<Rightarrow> Inl e
            | Inr filtered \<Rightarrow>
                Inr ((if case_count_sence_similary > non_case_count_sence_similary then grp else [])
                     @ filtered)))))"

definition filtered_singular_case_spans_of :: "doc \<Rightarrow> py_error + span list" where
  "filtered_singular_case_spans_of d =
     word_sense_filter
       (zip (spacy_sentences d)
            (map snd (group_spans_by_containing_span (map sentence_span (spacy_sentences d))
                        (singular_case_spans_of d) False)))"

definition singular_case_descriptions_of :: "span list \<Rightarrow> span list \<Rightarrow> span list" where
  "singular_case_descriptions_of case_descriptions singular_case_spans =
     map fst (filter (\<lambda>(count_description, grp). grp \<noteq> [])
                (group_spans_by_containing_span case_descriptions singular_case_spans True))"

subsection \<open>The count spans of the selected matches (lines 233-284)\<close>

definition attributes :: "string list" where
  "attributes =
     [''annual'', ''approximate'', ''average'', ''case'', ''confirmed'', ''cumulative'', ''death'',
      ''hospitalization'', ''incremental'', ''max'', ''min'', ''monthly'', ''suspected'', ''weekly'']"

text \<open>
  \<open>matching_attributes\<close> is a set in the source; here it is a list without repetitions,
  to which \<open>List.insert\<close> adds \<^verbatim>\<open>'case'\<close> unless it is there. The source sorts the list it
  makes of the set, so the order in which the set is listed does not show.
\<close>

definition matching_attributes_of :: "span \<Rightarrow> string list" where
  "matching_attributes_of m =
     (let matching_attributes = filter (\<lambda>attr. groupdict m attr \<noteq> []) attributes
      in if ''death'' \<in> set matching_attributes \<or> ''hospitalization'' \<in> set matching_attributes
         then List.insert ''case'' matching_attributes
         else matching_attributes)"

definition match_count_spans :: "(string \<Rightarrow> pyval) \<Rightarrow> string \<Rightarrow> span \<Rightarrow> py_error + CountSpan list" where
  "match_count_spans psn txt m =
     (let matching_attributes = matching_attributes_of m;
          count = (case groupdict m ''count'' of
                     c # _ \<Rightarrow> psn (span_text txt c)
                   | [] \<Rightarrow> PyInt 1)
      in case groupdict m ''range'' of
           range_match # _ \<Rightarrow>
             (case groupdict range_match ''count'' of
                [] \<Rightarrow> Inl KeyError
              | u # _ \<Rightarrow>
                  (let upper_count_text = span_text txt u;
                       upper_count = psn upper_count_text
                   in Inr [CountSpan_init txt m
                             \<lparr>md_text = span_text txt m,
                              md_attributes = sort (matching_attributes @ [''min'']),
                              md_count = count\<rparr>,
                           CountSpan_init txt range_match
                             \<lparr>md_text = upper_count_text,
                              md_attributes = sort (matching_attributes @ [''max'']),
                              md_count = upper_count\<rparr>]))
         | [] \<Rightarrow>
             Inr [CountSpan_init txt m
                    \<lparr>md_text = span_text txt m,
                     md_attributes = sort matching_attributes,
                     md_count = count\<rparr>])"

fun count_spans_of :: "(string \<Rightarrow> pyval) \<Rightarrow> string \<Rightarrow> span list \<Rightarrow> py_error + CountSpan list" where
  "count_spans_of psn txt [] = Inr []"
| "count_spans_of psn txt (m # ms) =
     (case match_count_spans psn txt m of
        Inl e \<Rightarrow> Inl e
      | Inr cs \<Rightarrow>
          (case count_spans_of psn txt ms of
             Inl e \<Rightarrow> Inl e
           | Inr ds \<Rightarrow> Inr (cs @ ds)))"

subsection \<open>The whole of \<^verbatim>\<open>annotate\<close>\<close>

text \<open>
  The matches that the final selection chooses among (lines 218-230), and the selection
  (lines 231-232).
\<close>

definition annotated_counts_of :: "config \<Rightarrow> doc \<Rightarrow> py_error + span list" where
  "annotated_counts_of cfg d =
     (case count_candidates (parse_spelled_number cfg) (doc_text d) (map ne_span_of (spacy_nes d)) of
        Inl e \<Rightarrow> Inl e
      | Inr counts \<Rightarrow>
     (let counts_tier = counts_tier_of cfg d counts;
          count_descriptions = count_descriptions_of cfg d counts_tier;
          case_descriptions = case_descriptions_of cfg d;
          case_descriptions_with_counts =
            with_nearby_spans_from 50 case_descriptions count_descriptions
      in case filtered_singular_case_spans_of d of
           Inl e \<Rightarrow> Inl e
         | Inr singular_case_spans \<Rightarrow>
     (let singular_case_descriptions =
            singular_case_descriptions_of case_descriptions singular_case_spans;
          all_potential_counts =
            case_descriptions_with_counts @
            follows (follows_max_dist cfg)
              [search_regex d regex_deaths (Some ''death''), counts_tier] @
            count_descriptions @
            singular_case_descriptions;
          single_sentence_counts =
            concat (map snd (group_spans_by_containing_span
                               (map sentence_span (spacy_sentences d)) all_potential_counts False))
      in Inr (optimal_span_set (prefer_num_spans cfg) single_sentence_counts))))"

text \<open>The value under the key \<^verbatim>\<open>'counts'\<close> of the dictionary that \<^verbatim>\<open>annotate\<close> returns.\<close>

definition annotate :: "config \<Rightarrow> doc \<Rightarrow> py_error + CountSpan list" where
  "annotate cfg d =
     (case annotated_counts_of cfg d of
        Inl e \<Rightarrow> Inl e
      | Inr annotated_counts \<Rightarrow>
          count_spans_of (parse_spelled_number cfg) (doc_text d) annotated_counts)"

subsection \<open>The count constituents of the matches\<close>

text \<open>
  \<open>counts_satisfy P tier\<close>: every span stored under the role \<^verbatim>\<open>count\<close> in the group
  dictionary of a span of the tier satisfies \<open>P\<close>.
\<close>

definition counts_satisfy :: "(span \<Rightarrow> bool) \<Rightarrow> span list \<Rightarrow> bool" where
  "counts_satisfy P tier = (\<forall>m \<in> set tier. \<forall>g \<in> set (groupdict m ''count''). P g)"

section \<open>\<^verbatim>\<open>import_species\<close> (importers/import_species.py, lines 41-124)\<close>

text \<open>
  The three tables of the synonym database that the function touches, as lists of rows.
  The schema is set up by \<^verbatim>\<open>get_database_connection\<close>, which is not among the sources at
  hand; the columns are those that the statements of \<^verbatim>\<open>import_species\<close> name or fill, and
  no constraint is modelled. The value of a metadata row may be NULL (\<open>None\<close>).
\<close>

record entity_row =
  entity_id :: string
  entity_label :: string
  entity_type :: string
  entity_source :: string

record synonym_row =
  synonym :: string
  synonym_entity_id :: string
  synonym_weight :: nat

record database =
  entities :: "entity_row list"
  synonyms :: "synonym_row list"
  metadata :: "(string \<times> string option) list"

text \<open>
  What comes from outside: the version of the ITIS data (from the environment or from
  the name of the downloaded archive), the rows of its table \<^verbatim>\<open>taxonomic_units\<close> (tsn,
  complete name, rank, kingdom) and the rows that the query of lines 85 to 103 yields
  (tsn, name, number of references).
\<close>

record itis_data =
  itis_version :: "string option"
  taxonomic_units :: "(nat \<times> string \<times> nat \<times> nat) list"
  name_rows :: "(nat \<times> string \<times> nat) list"

text \<open>Python's \<^verbatim>\<open>str\<close> of a natural number.\<close>

fun str_nat :: "nat \<Rightarrow> string" where
  "str_nat n =
     (if n < 10 then [char_of (48 + n)]
      else str_nat (n div 10) @ [char_of (48 + n mod 10)])"

text \<open>The three \<^verbatim>\<open>DELETE\<close> statements of lines 46 to 51, in their order.\<close>

definition remove_previous :: "database \<Rightarrow> database" where
  "remove_previous db =
     (let itis_ids = map entity_id (filter (\<lambda>e. entity_source e = ''ITIS'') (entities db));
          db1 = db\<lparr>synonyms := filter (\<lambda>s. synonym_entity_id s \<notin> set itis_ids) (synonyms db)\<rparr>;
          db2 = db1\<lparr>entities := filter (\<lambda>e. entity_source e \<noteq> ''ITIS'') (entities db1)\<rparr>
      in db2\<lparr>metadata := filter (\<lambda>(property, v). property \<noteq> ''itis_version'') (metadata db2)\<rparr>)"

text \<open>
  Lines 104 to 120: every row of the query goes to \<^verbatim>\<open>synonyms_init\<close> with its weight capped
  at 3, and \<^verbatim>\<open>synonyms\<close> receives one row for each pair of synonym and entity, with the
  greatest weight of the pair (SQL leaves the order of these rows open; here it is the
  order of first occurrence).
\<close>

definition synonyms_init_of :: "(nat \<times> string \<times> nat) list \<Rightarrow> synonym_row list" where
  "synonyms_init_of rows =
     map (\<lambda>(tsn, name, refs).
            \<lparr>synonym = name, synonym_entity_id = ''tsn:'' @ str_nat tsn,
             synonym_weight = (if refs \<ge> 3 then 3 else refs)\<rparr>) rows"

definition grouped_synonyms :: "synonym_row list \<Rightarrow> synonym_row list" where
  "grouped_synonyms init =
     map (\<lambda>(s, e).
            \<lparr>synonym = s, synonym_entity_id = e,
             synonym_weight =
               max_of (map synonym_weight
                         (filter (\<lambda>r. synonym r = s \<and> synonym_entity_id r = e) init))\<rparr>)
         (remdups (map (\<lambda>r. (synonym r, synonym_entity_id r)) init))"

text \<open>
  The database after the call, and the lines the call prints. \<open>db\<close> is the database that
  \<^verbatim>\<open>get_database_connection\<close> connects to.
\<close>

definition import_species :: "bool \<Rightarrow> itis_data \<Rightarrow> database \<Rightarrow> database \<times> string list" where
  "import_species drop_previous itis db =
     (let (db1, out1) =
            (if drop_previous then (remove_previous db, [''Removing previous ITIS data...''])
             else (db, []));
          current_itis_version =
            (case filter (\<lambda>(property, v). property = ''itis_version'') (metadata db1) of
               [] \<Rightarrow> None
             | row # _ \<Rightarrow> Some (snd row))
      in if current_itis_version \<noteq> None then
           (db1, out1 @ [''The species data has already been imported. Run this again with --drop-previous to re-import it.''])
         else
           (let db2 = db1\<lparr>metadata := metadata db1 @ [(''itis_version'', itis_version itis)]\<rparr>;
                db3 = db2\<lparr>entities := entities db2 @
                        map (\<lambda>(tsn, complete_name, rank_id, kingdom_id).
                               \<lparr>entity_id = ''tsn:'' @ str_nat tsn, entity_label = complete_name,
                                entity_type = ''species'', entity_source = ''ITIS''\<rparr>)
                          (filter (\<lambda>(tsn, complete_name, rank_id, kingdom_id).
                                     rank_id > 100 \<and> kingdom_id = 5) (taxonomic_units itis))\<rparr>;
                db4 = db3\<lparr>synonyms := synonyms db3 @
                        grouped_synonyms (synonyms_init_of (name_rows itis))\<rparr>
            in (db4, out1 @ [''Importing synonyms from ITIS database...''])))"

section \<open>Scenarios\<close>

text \<open>
  A number parser for the scenarios: it reads decimal numerals and nothing else, which
  is how \<^verbatim>\<open>parse_spelled_number\<close> answers on the texts used below.
\<close>

definition digit_of :: "char \<Rightarrow> nat option" where
  "digit_of c =
     (let n = (of_char c :: nat) in if 48 \<le> n \<and> n \<le> 57 then Some (n - 48) else None)"

definition decimal_parser :: "string \<Rightarrow> pyval" where
  "decimal_parser s =
     (if s \<noteq> [] \<and> list_all (\<lambda>c. digit_of c \<noteq> None) s
      then PyInt (int (fold (\<lambda>c n. 10 * n + the (digit_of c)) s 0))
      else PyNone)"

text \<open>
  The configuration of the scenarios: the first selection weighs a span by the length
  of its text, the final one by the number of its leaf spans; \<^verbatim>\<open>follows\<close> joins spans at
  most one character apart, \<^verbatim>\<open>with_nearby_spans_from\<close> spans at most 100 characters apart.
\<close>

definition scenario_config :: config where
  "scenario_config =
     \<lparr>parse_spelled_number = decimal_parser, prefer_default = text_length,
      prefer_num_spans = num_spans, follows_max_dist = 1, nearby_max_dist = 100\<rparr>"

definition tok :: "nat \<Rightarrow> nat \<Rightarrow> string \<Rightarrow> string \<Rightarrow> string list \<Rightarrow> token" where
  "tok s e l t cs =
     \<lparr>token_start = s, token_end = e, token_lemma = l, token_tag = t, token_children = cs\<rparr>"

definition sent :: "nat \<Rightarrow> nat \<Rightarrow> sentence" where
  "sent s e =
     \<lparr>sentence_start = s, sentence_end = e, case_count_similarity = [1 / 2],
      non_case_count_similarity = [1 / 4]\<rparr>"

text \<open>"between 5 and 10 cases", with one CARDINAL entity over "5 and 10".\<close>

definition range_doc :: doc where
  "range_doc =
     \<lparr>doc_text = ''between 5 and 10 cases'',
      spacy_tokens =
        [tok 0 7 ''between'' ''IN'' [], tok 8 9 ''5'' ''CD'' [], tok 10 13 ''and'' ''CC'' [],
         tok 14 16 ''10'' ''CD'' [], tok 17 22 ''case'' ''NNS'' []],
      spacy_sentences = [sent 0 22],
      spacy_nes = [\<lparr>ne_start = 8, ne_end = 16, ne_label = ''CARDINAL''\<rparr>],
      dates = []\<rparr>"

text \<open>"There were 12 confirmed cases and 3 deaths.", with "12" and "3" as CARDINAL entities.\<close>

definition deaths_doc :: doc where
  "deaths_doc =
     \<lparr>doc_text = ''There were 12 confirmed cases and 3 deaths.'',
      spacy_tokens =
        [tok 0 5 ''there'' ''EX'' [], tok 6 10 ''be'' ''VBD'' [], tok 11 13 ''12'' ''CD'' [],
         tok 14 23 ''confirm'' ''VBN'' [], tok 24 29 ''case'' ''NNS'' [],
         tok 30 33 ''and'' ''CC'' [], tok 34 35 ''3'' ''CD'' [], tok 36 42 ''death'' ''NNS'' [],
         tok 42 43 ''.'' ''.'' []],
      spacy_sentences = [sent 0 43],
      spacy_nes = [\<lparr>ne_start = 11, ne_end = 13, ne_label = ''CARDINAL''\<rparr>,
                   \<lparr>ne_start = 34, ne_end = 35, ne_label = ''CARDINAL''\<rparr>],
      dates = []\<rparr>"

text \<open>"12 since 2020 died", with "12" as a CARDINAL entity and "2020" as a date.\<close>

definition date_doc :: doc where
  "date_doc =
     \<lparr>doc_text = ''12 since 2020 died'',
      spacy_tokens =
        [tok 0 2 ''12'' ''CD'' [], tok 3 8 ''since'' ''IN'' [], tok 9 13 ''2020'' ''CD'' [],
         tok 14 18 ''die'' ''VBD'' []],
      spacy_sentences = [sent 0 18],
      spacy_nes = [\<lparr>ne_start = 0, ne_end = 2, ne_label = ''CARDINAL''\<rparr>,
                   \<lparr>ne_start = 9, ne_end = 13, ne_label = ''DATE''\<rparr>],
      dates = [AnnoSpan 9 13 (Some ''2020'')]\<rparr>"

text \<open>"5 to 10 km", with one CARDINAL entity over "5 to 10".\<close>

definition km_doc :: doc where
  "km_doc =
     \<lparr>doc_text = ''5 to 10 km'',
      spacy_tokens =
        [tok 0 1 ''5'' ''CD'' [], tok 2 4 ''to'' ''IN'' [], tok 5 7 ''10'' ''CD'' [],
         tok 8 10 ''km'' ''NNS'' []],
      spacy_sentences = [sent 0 10],
      spacy_nes = [\<lparr>ne_start = 0, ne_end = 7, ne_label = ''CARDINAL''\<rparr>],
      dates = []\<rparr>"

text \<open>"over 5 to 10 cases", with one CARDINAL entity over "5 to 10".\<close>

definition over_doc :: doc where
  "over_doc =
     \<lparr>doc_text = ''over 5 to 10 cases'',
      spacy_tokens =
        [tok 0 4 ''over'' ''IN'' [], tok 5 6 ''5'' ''CD'' [], tok 7 9 ''to'' ''IN'' [],
         tok 10 12 ''10'' ''CD'' [], tok 13 18 ''case'' ''NNS'' []],
      spacy_sentences = [sent 0 18],
      spacy_nes = [\<lparr>ne_start = 5, ne_end = 12, ne_label = ''CARDINAL''\<rparr>],
      dates = []\<rparr>"

text \<open>"x to 5", with a CARDINAL entity over " to 5": its text begins with a joiner.\<close>

definition joiner_first_doc :: doc where
  "joiner_first_doc =
     \<lparr>doc_text = ''x to 5'',
      spacy_tokens = [tok 0 1 ''x'' ''NN'' [], tok 2 4 ''to'' ''IN'' [], tok 5 6 ''5'' ''CD'' []],
      spacy_sentences = [sent 0 6],
      spacy_nes = [\<lparr>ne_start = 1, ne_end = 6, ne_label = ''CARDINAL''\<rparr>],
      dates = []\<rparr>"

text \<open>"5 cases in 2020", with "5" and "2020" as CARDINAL entities and "2020" as a date.\<close>

definition year_doc :: doc where
  "year_doc =
     \<lparr>doc_text = ''5 cases in 2020'',
      spacy_tokens =
        [tok 0 1 ''5'' ''CD'' [], tok 2 7 ''case'' ''NNS'' [], tok 8 10 ''in'' ''IN'' [],
         tok 11 15 ''2020'' ''CD'' []],
      spacy_sentences = [sent 0 15],
      spacy_nes = [\<lparr>ne_start = 0, ne_end = 1, ne_label = ''CARDINAL''\<rparr>,
                   \<lparr>ne_start = 11, ne_end = 15, ne_label = ''CARDINAL''\<rparr>],
      dates = [AnnoSpan 11 15 (Some ''2020'')]\<rparr>"

section \<open>Properties of \<^verbatim>\<open>is_valid_count\<close>\<close>

lemma float_trunc_eq_iff:
  "(r = real_of_int (if 0 \<le> r then \<lfloor>r\<rfloor> else \<lceil>r\<rceil>)) = (\<exists>n::int. r = of_int n)"
  by (auto; metis floor_of_int ceiling_of_int)

lemma is_valid_count_Cons:
  "fst (is_valid_count p (c # cs)) = Inr True \<longleftrightarrow>
     c \<noteq> CHR ''0'' \<and> (\<exists>n::int. py_number (p (c # cs)) = Some (of_int n) \<and> n \<le> 1000000000)"
proof (cases "p (c # cs)")
  case PyNone then show ?thesis by (simp add: is_valid_count_def Let_def)
next
  case (PyInt i) then show ?thesis by (auto simp add: is_valid_count_def Let_def split: if_splits)
next
  case (PyFloat r)
  have "(fst (is_valid_count p (c # cs)) = Inr True) =
        (c \<noteq> CHR ''0'' \<and> r = real_of_int (if 0 \<le> r then \<lfloor>r\<rfloor> else \<lceil>r\<rceil>) \<and> r \<le> 1000000000)"
    by (auto simp add: is_valid_count_def Let_def PyFloat not_less)
  also have "\<dots> = (c \<noteq> CHR ''0'' \<and> (\<exists>n::int. r = of_int n \<and> n \<le> 1000000000))"
    unfolding float_trunc_eq_iff by (auto; linarith?)
  finally show ?thesis using PyFloat by simp
next
  case PyNaN then show ?thesis by (simp add: is_valid_count_def Let_def)
next
  case (PyInf b) then show ?thesis by (simp add: is_valid_count_def Let_def)
qed

lemma decimal_parser_12: "decimal_parser ''12'' = PyInt 12"
  by code_simp

text \<open>
  C8. For every non-empty string, \<^verbatim>\<open>is_valid_count\<close> returns \<^verbatim>\<open>True\<close> exactly when the string
  does not begin with the character 0, the parser returns a number that equals an
  integer, and that number is at most 1,000,000,000.
\<close>

theorem is_valid_count_iff:
  assumes "count_string \<noteq> []"
  shows "fst (is_valid_count psn count_string) = Inr True \<longleftrightarrow>
         hd count_string \<noteq> CHR ''0'' \<and>
         (\<exists>n::int. py_number (psn count_string) = Some (of_int n) \<and> n \<le> 1000000000)"
  using assms by (cases count_string) (simp_all add: is_valid_count_Cons)

theorem is_valid_count_iff_witness:
  "fst (is_valid_count decimal_parser ''12'') = Inr True \<and>
   fst (is_valid_count decimal_parser ''012'') \<noteq> Inr True"
proof -
  have a: "''12'' \<noteq> []" and b: "''012'' \<noteq> []" by simp_all
  have "py_number (decimal_parser ''12'') = Some (of_int 12) \<and> (12::int) \<le> 1000000000"
    by (simp add: decimal_parser_12)
  then have "\<exists>n::int. py_number (decimal_parser ''12'') = Some (of_int n) \<and> n \<le> 1000000000"
    by blast
  then show ?thesis
    using is_valid_count_iff [OF a, of decimal_parser] is_valid_count_iff [OF b, of decimal_parser]
    by simp
qed

section \<open>Properties of \<^verbatim>\<open>import_species\<close>\<close>

lemma itis_version_row_found:
  assumes "(''itis_version'', v) \<in> set rows"
  shows "filter (\<lambda>(property, v). property = ''itis_version'') rows \<noteq> []"
proof -
  have "(''itis_version'', v) \<in> set (filter (\<lambda>(property, v). property = ''itis_version'') rows)"
    using assms by simp
  then show ?thesis by (metis empty_iff list.set(1))
qed

text \<open>
  C10. When the metadata table already holds a row with property \<^verbatim>\<open>itis_version\<close> and
  \<^verbatim>\<open>drop_previous\<close> is false, \<^verbatim>\<open>import_species\<close> returns early: the tables entities,
  synonyms and metadata are what they were, and only the notice is printed.
\<close>

theorem import_species_already_imported:
  assumes "(''itis_version'', v) \<in> set (metadata db)"
  shows "import_species False itis db =
           (db, [''The species data has already been imported. Run this again with --drop-previous to re-import it.''])"
proof -
  obtain row rows where "filter (\<lambda>(property, v). property = ''itis_version'') (metadata db) = row # rows"
    using itis_version_row_found [OF assms] by (meson list.exhaust)
  then show ?thesis by (simp add: import_species_def)
qed

theorem import_species_already_imported_witness:
  "fst (import_species False
          \<lparr>itis_version = Some ''2017'', taxonomic_units = [(7, ''Apis'', 180, 5)], name_rows = [(7, ''bee'', 4)]\<rparr>
          \<lparr>entities = [], synonyms = [], metadata = [(''itis_version'', Some ''2016'')]\<rparr>) =
     \<lparr>entities = [], synonyms = [], metadata = [(''itis_version'', Some ''2016'')]\<rparr>"
proof -
  have "(''itis_version'', Some ''2016'') \<in>
        set (metadata \<lparr>entities = [], synonyms = [], metadata = [(''itis_version'', Some ''2016'')]\<rparr>)"
    by simp
  from import_species_already_imported [OF this] show ?thesis by simp
qed

lemma import_species_fresh_example:
  "fst (import_species False
          \<lparr>itis_version = Some ''2017'', taxonomic_units = [(7, ''Apis'', 180, 5), (8, ''Animalia'', 10, 5)],
           name_rows = [(7, ''bee'', 4), (7, ''bee'', 1)]\<rparr>
          \<lparr>entities = [], synonyms = [], metadata = []\<rparr>) =
     \<lparr>entities = [\<lparr>entity_id = ''tsn:7'', entity_label = ''Apis'', entity_type = ''species'', entity_source = ''ITIS''\<rparr>],
      synonyms = [\<lparr>synonym = ''bee'', synonym_entity_id = ''tsn:7'', synonym_weight = 3\<rparr>],
      metadata = [(''itis_version'', Some ''2017'')]\<rparr>"
  by code_simp

section \<open>Construction of spans\<close>

text \<open>
  C7 (as amended). The constructor of \<^verbatim>\<open>AnnoSpan\<close> rejects a start offset that exceeds the
  end offset and accepts every other pair unchanged. \<^verbatim>\<open>CountSpan.__init__\<close> checks nothing:
  it copies the offsets of the span it is given, so the \<^verbatim>\<open>CountSpan\<close> has its start at or
  before its end exactly when that span has.
\<close>

theorem span_construction:
  "(AnnoSpan_init s e = Inl InvalidSpan \<longleftrightarrow> e < s) \<and>
   (AnnoSpan_init s e = Inr x \<longleftrightarrow> s \<le> e \<and> x = AnnoSpan s e None) \<and>
   cs_start (CountSpan_init txt sp md) = span_start sp \<and>
   cs_end (CountSpan_init txt sp md) = span_end sp"
  by (auto simp add: AnnoSpan_init_def CountSpan_init_def)

theorem span_construction_witness:
  "AnnoSpan_init 5 2 = Inl InvalidSpan \<and> AnnoSpan_init 2 5 = Inr (AnnoSpan 2 5 None) \<and>
   cs_start (CountSpan_init ''abcdef'' (AnnoSpan 2 5 None)
     \<lparr>md_text = ''cde'', md_attributes = [], md_count = PyInt 1\<rparr>) = 2"
  using span_construction [of 5 2 "AnnoSpan 2 5 None" "''abcdef''" "AnnoSpan 2 5 None"
      "\<lparr>md_text = ''cde'', md_attributes = [], md_count = PyInt 1\<rparr>"]
    span_construction [of 2 5 "AnnoSpan 2 5 None"]
  by simp

theorem CountSpan_init_accepts_start_after_end:
  "CountSpan_init ''abcdef'' (AnnoSpan 5 2 None)
     \<lparr>md_text = '''', md_attributes = [], md_count = PyInt 1\<rparr> =
   \<lparr>cs_start = 5, cs_end = 2, cs_doc = ''abcdef'', cs_label = '''',
    cs_metadata = \<lparr>md_text = '''', md_attributes = [], md_count = PyInt 1\<rparr>\<rparr>"
  by (simp add: CountSpan_init_def span_text_def)

section \<open>Unparsable candidates\<close>

lemma is_valid_count_unparsable_Cons:
  "psn (c # cs) = PyNone \<Longrightarrow>
   is_valid_count psn (c # cs) =
     (Inr False, if c = CHR ''0'' then [] else [''Cannot parse count string: '' @ c # cs])"
  by (simp add: is_valid_count_def Let_def)

lemma is_valid_count_empty: "is_valid_count psn [] = (Inl IndexError, [])"
  by (simp add: is_valid_count_def)

lemma ne_counts_no_single_joiner:
  assumes "fst (is_valid_count psn (span_text txt ne_span)) = Inr False"
    and "length (finditer_joiner 0 0 (span_text txt ne_span)) \<noteq> 1"
  shows "ne_counts psn txt ne_span = Inr []"
proof (cases "finditer_joiner 0 0 (span_text txt ne_span)")
  case Nil
  then show ?thesis using assms(1) by (simp add: ne_counts_def)
next
  case (Cons p ps)
  then obtain q qs where "ps = q # qs" using assms(2) by (cases ps) auto
  then show ?thesis using assms(1) Cons by (simp add: ne_counts_def split: prod.splits)
qed

lemma count_candidates_skip:
  "ne_counts psn txt ne_span = Inr [] \<Longrightarrow>
   count_candidates psn txt (ne_span # rest) = count_candidates psn txt rest"
  by (simp split: sum.splits)

text \<open>
  C5 (as amended). For every non-empty candidate string that the parser cannot parse
  (it returns \<^verbatim>\<open>None\<close>), \<^verbatim>\<open>is_valid_count\<close> returns \<^verbatim>\<open>False\<close> and raises nothing; it logs the
  failure unless the string begins with the character 0, in which case it has returned
  before the parse result is looked at. An entity with such a text and without exactly
  one joiner adds no candidate, and the loop over the entities goes on with the rest.
\<close>

theorem unparsable_candidate_dropped:
  assumes "count_string \<noteq> []" and "psn count_string = PyNone"
  shows "is_valid_count psn count_string =
           (Inr False,
            if hd count_string = CHR ''0'' then []
            else [''Cannot parse count string: '' @ count_string]) \<and>
         (span_text txt ne_span = count_string \<and>
          length (finditer_joiner 0 0 count_string) \<noteq> 1 \<longrightarrow>
            ne_counts psn txt ne_span = Inr [] \<and>
            count_candidates psn txt (ne_span # rest) = count_candidates psn txt rest)"
proof -
  obtain c cs where s: "count_string = c # cs" using assms(1) by (cases count_string) auto
  have v: "is_valid_count psn count_string =
           (Inr False,
            if hd count_string = CHR ''0'' then []
            else [''Cannot parse count string: '' @ count_string])"
    using is_valid_count_unparsable_Cons [of psn c cs] assms(2) by (simp add: s)
  have "ne_counts psn txt ne_span = Inr [] \<and>
        count_candidates psn txt (ne_span # rest) = count_candidates psn txt rest"
    if t: "span_text txt ne_span = count_string"
      and j: "length (finditer_joiner 0 0 count_string) \<noteq> 1"
  proof -
    have "fst (is_valid_count psn (span_text txt ne_span)) = Inr False"
      using v t by simp
    then have "ne_counts psn txt ne_span = Inr []"
      using j t by (simp add: ne_counts_no_single_joiner)
    then show ?thesis using count_candidates_skip by blast
  qed
  with v show ?thesis by blast
qed

lemma decimal_parser_x: "decimal_parser ''x'' = PyNone"
  by code_simp

theorem unparsable_candidate_dropped_witness:
  "is_valid_count decimal_parser ''x'' = (Inr False, [''Cannot parse count string: x'']) \<and>
   count_candidates decimal_parser ''x'' [AnnoSpan 0 1 (Some ''CARDINAL'')] = Inr []"
proof -
  have a: "''x'' \<noteq> []" by simp
  have t: "span_text ''x'' (AnnoSpan 0 1 (Some ''CARDINAL'')) = ''x''"
    by (simp add: span_text_def)
  have j: "length (finditer_joiner 0 0 ''x'') \<noteq> 1"
    by (simp add: joiner_match_def is_space_def)
  show ?thesis
    using unparsable_candidate_dropped [of "''x''" decimal_parser "''x''"
        "AnnoSpan 0 1 (Some ''CARDINAL'')" "[]", OF a decimal_parser_x] t j
    by simp
qed

theorem leading_zero_not_logged:
  "decimal_parser ''0x'' = PyNone \<and> is_valid_count decimal_parser ''0x'' = (Inr False, [])"
  by code_simp

text \<open>
  An entity whose text begins with a joiner has an empty left side, on which
  \<^verbatim>\<open>is_valid_count\<close> reads \<^verbatim>\<open>count_string[0]\<close>: the \<^verbatim>\<open>IndexError\<close> leaves \<^verbatim>\<open>annotate\<close>.
\<close>

lemma annotate_raises_on_empty_side:
  "annotate scenario_config joiner_first_doc = Inl IndexError"
  by code_simp

section \<open>The count spans of a match\<close>

lemma groupdict_nested:
  "r \<in> set (groupdict m k) \<Longrightarrow> set (groupdict r k') \<subseteq> set (groupdict m k')"
proof (induction m)
  case (AnnoSpan s e l)
  then show ?case by simp
next
  case (SpanGroup bs l)
  from SpanGroup.prems consider
    (child) b where "b \<in> set bs" "r \<in> set (groupdict b k)"
    | (self) "r = SpanGroup bs l"
    by (auto split: if_splits)
  then show ?case
  proof cases
    case child
    then have "set (groupdict r k') \<subseteq> set (groupdict b k')"
      using SpanGroup.IH by blast
    then show ?thesis using child(1) by auto
  next
    case self
    then show ?thesis by simp
  qed
qed




section \<open>Attributes\<close>

lemma count_spans_of_elem:
  "count_spans_of psn txt ms = Inr cs \<Longrightarrow> c \<in> set cs \<Longrightarrow>
   \<exists>m \<in> set ms. \<exists>cm. match_count_spans psn txt m = Inr cm \<and> c \<in> set cm"
proof (induction ms arbitrary: cs)
  case Nil
  then show ?case by simp
next
  case (Cons m ms)
  from Cons.prems(1) obtain cm ds where
    cm: "match_count_spans psn txt m = Inr cm" and ds: "count_spans_of psn txt ms = Inr ds"
    and cs: "cs = cm @ ds"
    by (auto split: sum.splits)
  from Cons.prems(2) cs consider "c \<in> set cm" | "c \<in> set ds" by auto
  then show ?case
  proof cases
    case 1
    then show ?thesis using cm by auto
  next
    case 2
    then show ?thesis using Cons.IH [OF ds] by auto
  qed
qed

lemma match_count_spans_attributes:
  assumes "match_count_spans psn txt m = Inr cm" and "c \<in> set cm"
  shows "set (matching_attributes_of m) \<subseteq> set (md_attributes (cs_metadata c)) \<and>
         set (md_attributes (cs_metadata c)) \<subseteq> set (matching_attributes_of m) \<union> {''min'', ''max''}"
  using assms
  by (auto simp add: match_count_spans_def CountSpan_init_def Let_def
      split: list.splits)

lemma matching_attributes_case:
  assumes "''death'' \<in> set (matching_attributes_of m) \<or>
           ''hospitalization'' \<in> set (matching_attributes_of m)"
  shows "''case'' \<in> set (matching_attributes_of m)"
  using assms by (auto simp add: matching_attributes_of_def Let_def split: if_splits)

lemma annotate_elem:
  assumes "annotate cfg d = Inr cs" and "c \<in> set cs"
  shows "\<exists>ms m cm. annotated_counts_of cfg d = Inr ms \<and> m \<in> set ms \<and>
           match_count_spans (parse_spelled_number cfg) (doc_text d) m = Inr cm \<and> c \<in> set cm"
proof -
  from assms(1) obtain ms where ms: "annotated_counts_of cfg d = Inr ms"
    and cs: "count_spans_of (parse_spelled_number cfg) (doc_text d) ms = Inr cs"
    by (auto simp add: annotate_def split: sum.splits)
  from count_spans_of_elem [OF cs assms(2)] ms show ?thesis by blast
qed

lemma annotate_date_doc:
  "annotate scenario_config date_doc =
     Inr [\<lparr>cs_start = 0, cs_end = 18, cs_doc = ''12 since 2020 died'',
           cs_label = ''12 since 2020 died'',
           cs_metadata = \<lparr>md_text = ''12 since 2020 died'',
                          md_attributes = [''case'', ''death''], md_count = PyInt 12\<rparr>\<rparr>]"
  by code_simp

text \<open>
  C4. Every count span that \<^verbatim>\<open>annotate\<close> emits whose attributes contain \<^verbatim>\<open>death\<close> or
  \<^verbatim>\<open>hospitalization\<close> has \<^verbatim>\<open>case\<close> among its attributes as well.
\<close>

theorem death_implies_case:
  assumes "annotate cfg d = Inr count_spans" and "c \<in> set count_spans"
    and "''death'' \<in> set (md_attributes (cs_metadata c)) \<or>
         ''hospitalization'' \<in> set (md_attributes (cs_metadata c))"
  shows "''case'' \<in> set (md_attributes (cs_metadata c))"
proof -
  from annotate_elem [OF assms(1,2)] obtain m cm where
    cm: "match_count_spans (parse_spelled_number cfg) (doc_text d) m = Inr cm" and c: "c \<in> set cm"
    by blast
  note a = match_count_spans_attributes [OF cm c]
  from assms(3) a have "''death'' \<in> set (matching_attributes_of m) \<or>
      ''hospitalization'' \<in> set (matching_attributes_of m)"
    by auto
  then have "''case'' \<in> set (matching_attributes_of m)" by (rule matching_attributes_case)
  with a show ?thesis by blast
qed

theorem death_implies_case_witness:
  "''death'' \<in> set [''case'', ''death''] \<and>
   ''case'' \<in> set (md_attributes (cs_metadata
      \<lparr>cs_start = 0, cs_end = 18, cs_doc = ''12 since 2020 died'',
       cs_label = ''12 since 2020 died'',
       cs_metadata = \<lparr>md_text = ''12 since 2020 died'',
                      md_attributes = [''case'', ''death''], md_count = PyInt 12\<rparr>\<rparr>))"
proof -
  let ?c = "\<lparr>cs_start = 0, cs_end = 18, cs_doc = ''12 since 2020 died'',
       cs_label = ''12 since 2020 died'',
       cs_metadata = \<lparr>md_text = ''12 since 2020 died'',
                      md_attributes = [''case'', ''death''], md_count = PyInt 12\<rparr>\<rparr>"
  have m: "?c \<in> set [?c]" by simp
  have h: "''death'' \<in> set (md_attributes (cs_metadata ?c)) \<or>
           ''hospitalization'' \<in> set (md_attributes (cs_metadata ?c))" by simp
  from death_implies_case [OF annotate_date_doc m h] show ?thesis by simp
qed

section \<open>The overlap resolver selects spans that do not overlap\<close>

lemma overlaps_sym: "overlaps a b = overlaps b a"
  by (auto simp add: overlaps_def)

lemma ends_before_no_overlap: "span_end a \<le> span_start b \<Longrightarrow> \<not> overlaps a b"
  by (simp add: overlaps_def)

lemma overlaps_within:
  assumes "overlaps c c'"
    and "span_start m \<le> span_start c" "span_end c \<le> span_end m"
    and "span_start m' \<le> span_start c'" "span_end c' \<le> span_end m'"
  shows "overlaps m m'"
  using assms by (simp add: overlaps_def)

lemma distinct_of_mset_subset:
  assumes "mset xs \<subseteq># mset ys" and "distinct ys"
  shows "distinct xs"
proof -
  have "count (mset xs) a \<le> 1" for a
  proof -
    have "count (mset xs) a \<le> count (mset ys) a"
      using assms(1) by (rule mset_subset_eq_count)
    also have "\<dots> \<le> 1" using assms(2) by (simp add: distinct_count_atmost_1)
    finally show ?thesis .
  qed
  then show ?thesis
    unfolding distinct_count_atmost_1
    by (metis count_mset_0_iff le_antisym less_one not_le set_mset_mset linorder_not_less)
qed

subsection \<open>The selection within a component\<close>

lemma subseteq_add_mset: "A \<subseteq># B \<Longrightarrow> A \<subseteq># add_mset s B"
  by (metis add_mset_add_single mset_subset_eq_add_left subset_mset.order_trans)

lemma best_selection_mset: "mset (snd (best_selection w xs)) \<subseteq># mset xs"
proof (induction w xs rule: best_selection.induct)
  case (1 w)
  then show ?case by simp
next
  case (2 w s earlier)
  let ?f = "filter (\<lambda>t. span_end (snd t) \<le> span_start (snd s)) earlier"
  have a: "mset (snd (best_selection w earlier)) \<subseteq># mset (s # earlier)"
    using "2.IH"(1) by (simp add: subseteq_add_mset)
  have "mset (snd (best_selection w ?f)) \<subseteq># mset ?f" using "2.IH"(2) by simp
  also have "\<dots> \<subseteq># mset earlier" by simp
  finally have b: "mset (snd (best_selection w ?f) @ [s]) \<subseteq># mset (s # earlier)"
    by (simp del: mset_filter)
  show ?case using a b by (simp add: Let_def del: mset_filter)
qed

lemma best_selection_subset: "set (snd (best_selection w xs)) \<subseteq> set xs"
  using best_selection_mset [of w xs] set_mset_mono by fastforce

lemma best_selection_no_overlap:
  "p \<in> set (snd (best_selection w xs)) \<Longrightarrow> q \<in> set (snd (best_selection w xs)) \<Longrightarrow>
   p \<noteq> q \<Longrightarrow> \<not> overlaps (snd p) (snd q)"
proof (induction w xs arbitrary: p q rule: best_selection.induct)
  case (1 w)
  then show ?case by simp
next
  case (2 w s earlier)
  let ?f = "filter (\<lambda>t. span_end (snd t) \<le> span_start (snd s)) earlier"
  let ?skip = "best_selection w earlier"
  let ?prior = "best_selection w ?f"
  show ?case
  proof (cases "fst ?skip < fst ?prior + w (snd s)")
    case False
    then have "snd (best_selection w (s # earlier)) = snd ?skip" by (simp add: Let_def)
    then show ?thesis using "2.IH"(1) "2.prems" by simp
  next
    case True
    then have r: "snd (best_selection w (s # earlier)) = snd ?prior @ [s]"
      by (simp add: Let_def)
    have before: "\<not> overlaps (snd t) (snd s)" if "t \<in> set (snd ?prior)" for t
    proof -
      have "t \<in> set ?f" using that best_selection_subset by blast
      then show ?thesis by (simp add: ends_before_no_overlap)
    qed
    from "2.prems" r consider
      (both) "p \<in> set (snd ?prior)" "q \<in> set (snd ?prior)"
      | (left) "p \<in> set (snd ?prior)" "q = s"
      | (right) "p = s" "q \<in> set (snd ?prior)"
      by auto
    then show ?thesis
    proof cases
      case both
      then show ?thesis using "2.IH"(2) "2.prems"(3) by simp
    next
      case left
      then show ?thesis using before by simp
    next
      case right
      then show ?thesis using before overlaps_sym by blast
    qed
  qed
qed

subsection \<open>The components\<close>

lemma separated_sym: "separated c c' = separated c' c"
  using overlaps_sym by (auto simp add: separated_def)

lemma mset_concat_partition:
  "mset (concat (filter P cs)) + mset (concat (filter (\<lambda>c. \<not> P c) cs)) = mset (concat cs)"
  by (induction cs) simp_all

lemma add_to_components_mset:
  "mset (concat (add_to_components s comps)) = mset (concat comps) + {#s#}"
  using mset_concat_partition [of "overlaps_component s" comps]
  by (simp add: add_to_components_def)

lemma add_to_components_separated:
  assumes "pairwise separated (set comps)"
  shows "pairwise separated (set (add_to_components s comps))"
proof -
  let ?hit = "filter (overlaps_component s) comps"
  let ?miss = "filter (\<lambda>c. \<not> overlaps_component s c) comps"
  let ?new = "concat ?hit @ [s]"
  have miss: "pairwise separated (set ?miss)"
    using assms by (rule pairwise_subset) auto
  have new: "separated ?new c" if c: "c \<in> set ?miss" for c
    unfolding separated_def
  proof (intro ballI)
    fix p q assume p: "p \<in> set ?new" and q: "q \<in> set c"
    from p consider "p = s" | h where "h \<in> set ?hit" "p \<in> set h" by auto
    then show "\<not> overlaps (snd p) (snd q)"
    proof cases
      case 1
      then show ?thesis using c q by (auto simp add: overlaps_component_def list_ex_iff)
    next
      case 2
      then have "h \<noteq> c" using c by auto
      then have "separated h c" using assms 2(1) c by (auto simp add: pairwise_def)
      then show ?thesis using 2(2) q by (simp add: separated_def)
    qed
  qed
  have "pairwise separated (insert ?new (set ?miss))"
    using miss new separated_sym by (auto simp add: pairwise_insert)
  then show ?thesis by (simp add: add_to_components_def)
qed

lemma fold_add_to_components:
  "pairwise separated (set acc) \<Longrightarrow>
   pairwise separated (set (fold add_to_components xs acc)) \<and>
   mset (concat (fold add_to_components xs acc)) = mset (concat acc) + mset xs"
proof (induction xs arbitrary: acc)
  case Nil
  then show ?case by simp
next
  case (Cons x xs)
  have "pairwise separated (set (add_to_components x acc))"
    using Cons.prems by (rule add_to_components_separated)
  from Cons.IH [OF this] show ?case by (simp add: add_to_components_mset)
qed

lemma overlap_components_separated: "pairwise separated (set (overlap_components xs))"
  using fold_add_to_components [of "[]" xs] by (simp add: overlap_components_def)

lemma overlap_components_mset: "mset (concat (overlap_components xs)) = mset xs"
  using fold_add_to_components [of "[]" xs] by (simp add: overlap_components_def)

subsection \<open>The selected spans of a tier\<close>

lemma component_selection_mset:
  "mset (snd (best_selection w (rev (sort_key k c)))) \<subseteq># mset c"
  using best_selection_mset [of w "rev (sort_key k c)"] by simp

lemma selections_mset:
  "mset (concat (map (\<lambda>c. snd (best_selection w (rev (sort_key k c)))) comps)) \<subseteq>#
   mset (concat comps)"
proof (induction comps)
  case Nil
  then show ?case by simp
next
  case (Cons c comps)
  then show ?case
    using component_selection_mset [of w k c] by (simp add: mset_subset_eq_mono_add)
qed

lemma selections_no_overlap:
  assumes "pairwise separated (set comps)"
    and "p \<in> set (concat (map (\<lambda>c. snd (best_selection w (rev (sort_key k c)))) comps))"
    and "q \<in> set (concat (map (\<lambda>c. snd (best_selection w (rev (sort_key k c)))) comps))"
    and "p \<noteq> q"
  shows "\<not> overlaps (snd p) (snd q)"
proof -
  from assms(2) obtain c1 where c1: "c1 \<in> set comps"
    and p: "p \<in> set (snd (best_selection w (rev (sort_key k c1))))" by auto
  from assms(3) obtain c2 where c2: "c2 \<in> set comps"
    and q: "q \<in> set (snd (best_selection w (rev (sort_key k c2))))" by auto
  have pc: "p \<in> set c1" using p best_selection_subset [of w "rev (sort_key k c1)"] by auto
  have qc: "q \<in> set c2" using q best_selection_subset [of w "rev (sort_key k c2)"] by auto
  show ?thesis
  proof (cases "c1 = c2")
    case True
    then show ?thesis using p q assms(4) best_selection_no_overlap by blast
  next
    case False
    then have "separated c1 c2" using assms(1) c1 c2 by (simp add: pairwise_def)
    then show ?thesis using pc qc by (simp add: separated_def)
  qed
qed

lemma sorted_wrt_of_pairwise:
  "distinct xs \<Longrightarrow> (\<And>p q. p \<in> set xs \<Longrightarrow> q \<in> set xs \<Longrightarrow> p \<noteq> q \<Longrightarrow> R p q) \<Longrightarrow>
   sorted_wrt R xs"
  by (induction xs) auto

lemma optimal_span_set_subset: "set (optimal_span_set w tier) \<subseteq> set tier"
proof -
  let ?comps = "overlap_components (enumerate 0 tier)"
  let ?sel = "concat (map (\<lambda>c. snd (best_selection w (rev (sort_key (\<lambda>t. span_end (snd t)) c)))) ?comps)"
  have "mset ?sel \<subseteq># mset (enumerate 0 tier)"
    using selections_mset [of w _ ?comps] by (simp add: overlap_components_mset)
  then have "set ?sel \<subseteq> set (enumerate 0 tier)"
    using set_mset_mono by fastforce
  then have "snd ` set ?sel \<subseteq> snd ` set (enumerate 0 tier)" by blast
  also have "\<dots> = set tier"
    using map_snd_enumerate [of 0 tier] by (metis set_map)
  finally show ?thesis by (simp add: optimal_span_set_def)
qed

lemma optimal_span_set_sorted_wrt:
  "sorted_wrt (\<lambda>a b. \<not> overlaps a b) (optimal_span_set w tier)"
proof -
  let ?comps = "overlap_components (enumerate 0 tier)"
  let ?sel = "concat (map (\<lambda>c. snd (best_selection w (rev (sort_key (\<lambda>t. span_end (snd t)) c)))) ?comps)"
  have "distinct (concat ?comps)"
    using mset_eq_imp_distinct_iff [OF overlap_components_mset [of "enumerate 0 tier"]]
    by simp
  then have d: "distinct ?sel"
    using selections_mset distinct_of_mset_subset by blast
  have "sorted_wrt (\<lambda>x y. \<not> overlaps (snd x) (snd y)) (sort_key fst ?sel)"
  proof (rule sorted_wrt_of_pairwise)
    show "distinct (sort_key fst ?sel)" using d by simp
  next
    fix p q
    assume "p \<in> set (sort_key fst ?sel)" "q \<in> set (sort_key fst ?sel)" "p \<noteq> q"
    then show "\<not> overlaps (snd p) (snd q)"
      using selections_no_overlap [OF overlap_components_separated] by simp
  qed
  then show ?thesis by (simp add: optimal_span_set_def sorted_wrt_map)
qed

subsection \<open>The extent of the count spans\<close>

lemma min_of_le: "x \<in> set xs \<Longrightarrow> min_of xs \<le> x"
  by (induction xs rule: min_of.induct) auto

lemma max_of_ge: "x \<in> set xs \<Longrightarrow> x \<le> max_of xs"
  by (induction xs) auto

lemma groupdict_within:
  "r \<in> set (groupdict m k) \<Longrightarrow> span_start m \<le> span_start r \<and> span_end r \<le> span_end m"
proof (induction m)
  case (AnnoSpan s e l)
  then show ?case by simp
next
  case (SpanGroup bs l)
  from SpanGroup.prems consider
    (child) b where "b \<in> set bs" "r \<in> set (groupdict b k)"
    | (self) "r = SpanGroup bs l"
    by (auto split: if_splits)
  then show ?case
  proof cases
    case child
    then have "span_start b \<le> span_start r \<and> span_end r \<le> span_end b"
      using SpanGroup.IH by blast
    moreover have "min_of (map span_start bs) \<le> span_start b"
      using child(1) by (simp add: min_of_le)
    moreover have "span_end b \<le> max_of (map span_end bs)"
      using child(1) by (simp add: max_of_ge)
    ultimately show ?thesis by simp
  next
    case self
    then show ?thesis by simp
  qed
qed

lemma match_count_spans_within:
  assumes "match_count_spans psn txt m = Inr cm" and "c \<in> set cm"
  shows "span_start m \<le> cs_start c \<and> cs_end c \<le> span_end m"
proof (cases "groupdict m ''range''")
  case Nil
  then show ?thesis using assms by (auto simp add: match_count_spans_def CountSpan_init_def)
next
  case (Cons r rs)
  then have "r \<in> set (groupdict m ''range'')" by simp
  then have "span_start m \<le> span_start r \<and> span_end r \<le> span_end m"
    by (rule groupdict_within)
  then show ?thesis
    using assms Cons
    by (auto simp add: match_count_spans_def CountSpan_init_def Let_def split: list.splits)
qed

subsection \<open>Overlaps among the count spans\<close>

lemma match_count_spans_pair:
  assumes "match_count_spans psn txt m = Inr cm"
  shows "sorted_wrt (\<lambda>a b. groupdict m ''range'' \<noteq> [] \<and> cm = [a, b] \<and>
           ''min'' \<in> set (md_attributes (cs_metadata a)) \<and>
           ''max'' \<in> set (md_attributes (cs_metadata b)) \<and>
           cs_start a \<le> cs_start b \<and> cs_end b \<le> cs_end a) cm"
proof (cases "groupdict m ''range''")
  case Nil
  then show ?thesis using assms by (auto simp add: match_count_spans_def)
next
  case (Cons r rs)
  then have "r \<in> set (groupdict m ''range'')" by simp
  then have "span_start m \<le> span_start r \<and> span_end r \<le> span_end m"
    by (rule groupdict_within)
  then show ?thesis
    using assms Cons
    by (auto simp add: match_count_spans_def CountSpan_init_def Let_def split: list.splits)
qed

lemma count_spans_of_overlaps:
  assumes "count_spans_of psn txt ms = Inr cs"
    and "sorted_wrt (\<lambda>a b. \<not> overlaps a b) ms"
    and "set ms \<subseteq> S"
  shows "sorted_wrt (\<lambda>a b. CountSpan_overlaps a b \<longrightarrow>
           (\<exists>m \<in> S. groupdict m ''range'' \<noteq> [] \<and>
              match_count_spans psn txt m = Inr [a, b] \<and>
              ''min'' \<in> set (md_attributes (cs_metadata a)) \<and>
              ''max'' \<in> set (md_attributes (cs_metadata b)) \<and>
              cs_start a \<le> cs_start b \<and> cs_end b \<le> cs_end a)) cs"
  using assms
proof (induction ms arbitrary: cs)
  case Nil
  then show ?case by simp
next
  case (Cons m ms)
  from Cons.prems(1) obtain cm ds where
    cm: "match_count_spans psn txt m = Inr cm" and ds: "count_spans_of psn txt ms = Inr ds"
    and cs: "cs = cm @ ds"
    by (auto split: sum.splits)
  have tail: "sorted_wrt (\<lambda>a b. \<not> overlaps a b) ms"
    and head: "\<And>m'. m' \<in> set ms \<Longrightarrow> \<not> overlaps m m'"
    using Cons.prems(2) by simp_all
  have mS: "m \<in> S" and msS: "set ms \<subseteq> S" using Cons.prems(3) by simp_all
  have apart: "\<not> CountSpan_overlaps x y" if x: "x \<in> set cm" and y: "y \<in> set ds" for x y
  proof -
    from count_spans_of_elem [OF ds y] obtain m' cm' where
      m': "m' \<in> set ms" and cm': "match_count_spans psn txt m' = Inr cm'" and y': "y \<in> set cm'"
      by blast
    note wx = match_count_spans_within [OF cm x]
    note wy = match_count_spans_within [OF cm' y']
    show ?thesis
    proof
      assume "CountSpan_overlaps x y"
      then have "overlaps m m'"
        using wx wy by (simp add: CountSpan_overlaps_def overlaps_def)
      then show False using head [OF m'] by simp
    qed
  qed
  have own: "sorted_wrt (\<lambda>a b. CountSpan_overlaps a b \<longrightarrow>
           (\<exists>m \<in> S. groupdict m ''range'' \<noteq> [] \<and>
              match_count_spans psn txt m = Inr [a, b] \<and>
              ''min'' \<in> set (md_attributes (cs_metadata a)) \<and>
              ''max'' \<in> set (md_attributes (cs_metadata b)) \<and>
              cs_start a \<le> cs_start b \<and> cs_end b \<le> cs_end a)) cm"
    using match_count_spans_pair [OF cm]
  proof (rule sorted_wrt_mono_rel [rotated])
    fix a b
    assume "groupdict m ''range'' \<noteq> [] \<and> cm = [a, b] \<and>
           ''min'' \<in> set (md_attributes (cs_metadata a)) \<and>
           ''max'' \<in> set (md_attributes (cs_metadata b)) \<and>
           cs_start a \<le> cs_start b \<and> cs_end b \<le> cs_end a"
    then show "CountSpan_overlaps a b \<longrightarrow>
           (\<exists>m \<in> S. groupdict m ''range'' \<noteq> [] \<and>
              match_count_spans psn txt m = Inr [a, b] \<and>
              ''min'' \<in> set (md_attributes (cs_metadata a)) \<and>
              ''max'' \<in> set (md_attributes (cs_metadata b)) \<and>
              cs_start a \<le> cs_start b \<and> cs_end b \<le> cs_end a)"
      using cm mS by blast
  qed
  show ?case
    unfolding cs sorted_wrt_append
    using own Cons.IH [OF ds tail msS] apart by blast
qed

lemma annotated_counts_of_sorted_wrt:
  "annotated_counts_of cfg d = Inr ms \<Longrightarrow> sorted_wrt (\<lambda>a b. \<not> overlaps a b) ms"
  by (auto simp add: annotated_counts_of_def Let_def optimal_span_set_sorted_wrt
      split: sum.splits)

lemma annotate_range_doc:
  "annotate scenario_config range_doc =
     Inr [\<lparr>cs_start = 8, cs_end = 22, cs_doc = ''between 5 and 10 cases'',
           cs_label = ''5 and 10 cases'',
           cs_metadata = \<lparr>md_text = ''5 and 10 cases'',
                          md_attributes = [''case'', ''min''], md_count = PyInt 5\<rparr>\<rparr>,
          \<lparr>cs_start = 10, cs_end = 16, cs_doc = ''between 5 and 10 cases'',
           cs_label = ''and 10'',
           cs_metadata = \<lparr>md_text = ''10'',
                          md_attributes = [''case'', ''max''], md_count = PyInt 10\<rparr>\<rparr>]"
  by code_simp

lemma annotated_counts_range_doc:
  "annotated_counts_of scenario_config range_doc =
     Inr [SpanGroup
            [SpanGroup [SpanGroup [AnnoSpan 17 22 None] None] (Some ''case''),
             SpanGroup
               [SpanGroup [AnnoSpan 8 9 None] (Some ''count''),
                SpanGroup
                  [SpanGroup
                     [SpanGroup [AnnoSpan 10 13 None] None,
                      SpanGroup [AnnoSpan 14 16 None] (Some ''count'')]
                     None]
                  (Some ''range'')]
               None]
            None]"
  by code_simp

text \<open>
  C1 (as amended). For every tier and every preference, no two spans of the output of
  \<^verbatim>\<open>optimal_span_set\<close> overlap. For every document the matches chosen by the final
  selection therefore do not overlap each other, and two count spans of the result of
  \<^verbatim>\<open>annotate\<close> overlap only when they are the two spans emitted for one selected match
  with a \<^verbatim>\<open>range\<close> role: the earlier one its lower span, tagged \<^verbatim>\<open>min\<close>, the later one its
  upper span, tagged \<^verbatim>\<open>max\<close>, which lies inside the lower span.
\<close>

theorem count_spans_overlap_only_in_ranges:
  "sorted_wrt (\<lambda>a b. \<not> overlaps a b) (optimal_span_set w tier) \<and>
   (annotated_counts_of cfg d = Inr ms \<longrightarrow> sorted_wrt (\<lambda>a b. \<not> overlaps a b) ms) \<and>
   (annotated_counts_of cfg d = Inr ms \<and> annotate cfg d = Inr cs \<longrightarrow>
      sorted_wrt (\<lambda>a b. CountSpan_overlaps a b \<longrightarrow>
         (\<exists>m \<in> set ms. groupdict m ''range'' \<noteq> [] \<and>
            match_count_spans (parse_spelled_number cfg) (doc_text d) m = Inr [a, b] \<and>
            ''min'' \<in> set (md_attributes (cs_metadata a)) \<and>
            ''max'' \<in> set (md_attributes (cs_metadata b)) \<and>
            cs_start a \<le> cs_start b \<and> cs_end b \<le> cs_end a)) cs)"
proof (intro conjI impI)
  show "sorted_wrt (\<lambda>a b. \<not> overlaps a b) (optimal_span_set w tier)"
    by (rule optimal_span_set_sorted_wrt)
next
  assume "annotated_counts_of cfg d = Inr ms"
  then show "sorted_wrt (\<lambda>a b. \<not> overlaps a b) ms"
    by (rule annotated_counts_of_sorted_wrt)
next
  assume a: "annotated_counts_of cfg d = Inr ms \<and> annotate cfg d = Inr cs"
  then have ms: "annotated_counts_of cfg d = Inr ms"
    and cs: "count_spans_of (parse_spelled_number cfg) (doc_text d) ms = Inr cs"
    by (auto simp add: annotate_def)
  from count_spans_of_overlaps [OF cs annotated_counts_of_sorted_wrt [OF ms] subset_refl]
  show "sorted_wrt (\<lambda>a b. CountSpan_overlaps a b \<longrightarrow>
         (\<exists>m \<in> set ms. groupdict m ''range'' \<noteq> [] \<and>
            match_count_spans (parse_spelled_number cfg) (doc_text d) m = Inr [a, b] \<and>
            ''min'' \<in> set (md_attributes (cs_metadata a)) \<and>
            ''max'' \<in> set (md_attributes (cs_metadata b)) \<and>
            cs_start a \<le> cs_start b \<and> cs_end b \<le> cs_end a)) cs" .
qed

theorem count_spans_overlap_only_in_ranges_witness:
  "optimal_span_set text_length [AnnoSpan 0 4 None, AnnoSpan 2 9 None, AnnoSpan 4 6 None] =
     [AnnoSpan 2 9 None] \<and>
   annotate scenario_config range_doc =
     Inr [\<lparr>cs_start = 8, cs_end = 22, cs_doc = ''between 5 and 10 cases'',
           cs_label = ''5 and 10 cases'',
           cs_metadata = \<lparr>md_text = ''5 and 10 cases'',
                          md_attributes = [''case'', ''min''], md_count = PyInt 5\<rparr>\<rparr>,
          \<lparr>cs_start = 10, cs_end = 16, cs_doc = ''between 5 and 10 cases'',
           cs_label = ''and 10'',
           cs_metadata = \<lparr>md_text = ''10'',
                          md_attributes = [''case'', ''max''], md_count = PyInt 10\<rparr>\<rparr>] \<and>
   match_count_spans decimal_parser ''between 5 and 10 cases''
     (SpanGroup
        [SpanGroup [SpanGroup [AnnoSpan 17 22 None] None] (Some ''case''),
         SpanGroup
           [SpanGroup [AnnoSpan 8 9 None] (Some ''count''),
            SpanGroup
              [SpanGroup
                 [SpanGroup [AnnoSpan 10 13 None] None,
                  SpanGroup [AnnoSpan 14 16 None] (Some ''count'')]
                 None]
              (Some ''range'')]
           None]
        None) =
     Inr [\<lparr>cs_start = 8, cs_end = 22, cs_doc = ''between 5 and 10 cases'',
           cs_label = ''5 and 10 cases'',
           cs_metadata = \<lparr>md_text = ''5 and 10 cases'',
                          md_attributes = [''case'', ''min''], md_count = PyInt 5\<rparr>\<rparr>,
          \<lparr>cs_start = 10, cs_end = 16, cs_doc = ''between 5 and 10 cases'',
           cs_label = ''and 10'',
           cs_metadata = \<lparr>md_text = ''10'',
                          md_attributes = [''case'', ''max''], md_count = PyInt 10\<rparr>\<rparr>]"
proof -
  let ?A = "\<lparr>cs_start = 8, cs_end = 22, cs_doc = ''between 5 and 10 cases'',
           cs_label = ''5 and 10 cases'',
           cs_metadata = \<lparr>md_text = ''5 and 10 cases'',
                          md_attributes = [''case'', ''min''], md_count = PyInt 5\<rparr>\<rparr>"
  let ?B = "\<lparr>cs_start = 10, cs_end = 16, cs_doc = ''between 5 and 10 cases'',
           cs_label = ''and 10'',
           cs_metadata = \<lparr>md_text = ''10'',
                          md_attributes = [''case'', ''max''], md_count = PyInt 10\<rparr>\<rparr>"
  let ?M = "SpanGroup
        [SpanGroup [SpanGroup [AnnoSpan 17 22 None] None] (Some ''case''),
         SpanGroup
           [SpanGroup [AnnoSpan 8 9 None] (Some ''count''),
            SpanGroup
              [SpanGroup
                 [SpanGroup [AnnoSpan 10 13 None] None,
                  SpanGroup [AnnoSpan 14 16 None] (Some ''count'')]
                 None]
              (Some ''range'')]
           None]
        None"
  have a: "optimal_span_set text_length [AnnoSpan 0 4 None, AnnoSpan 2 9 None, AnnoSpan 4 6 None] =
     [AnnoSpan 2 9 None]" by code_simp
  have o: "CountSpan_overlaps ?A ?B" by (simp add: CountSpan_overlaps_def)
  have p: "parse_spelled_number scenario_config = decimal_parser"
    and t: "doc_text range_doc = ''between 5 and 10 cases''"
    by (simp_all add: scenario_config_def range_doc_def)
  from count_spans_overlap_only_in_ranges
    [of text_length "[AnnoSpan 0 4 None, AnnoSpan 2 9 None, AnnoSpan 4 6 None]"
      scenario_config range_doc "[?M]" "[?A, ?B]"]
    annotated_counts_range_doc annotate_range_doc
  have "CountSpan_overlaps ?A ?B \<longrightarrow>
        (\<exists>m \<in> set [?M].
            match_count_spans (parse_spelled_number scenario_config) (doc_text range_doc) m =
              Inr [?A, ?B])"
    by (simp del: groupdict.simps)
  with o have "match_count_spans decimal_parser ''between 5 and 10 cases'' ?M = Inr [?A, ?B]"
    by (simp add: p t)
  then show ?thesis using a annotate_range_doc by simp
qed

theorem range_count_spans_overlap:
  "annotate scenario_config range_doc =
     Inr [\<lparr>cs_start = 8, cs_end = 22, cs_doc = ''between 5 and 10 cases'',
           cs_label = ''5 and 10 cases'',
           cs_metadata = \<lparr>md_text = ''5 and 10 cases'',
                          md_attributes = [''case'', ''min''], md_count = PyInt 5\<rparr>\<rparr>,
          \<lparr>cs_start = 10, cs_end = 16, cs_doc = ''between 5 and 10 cases'',
           cs_label = ''and 10'',
           cs_metadata = \<lparr>md_text = ''10'',
                          md_attributes = [''case'', ''max''], md_count = PyInt 10\<rparr>\<rparr>] \<and>
   CountSpan_overlaps
     \<lparr>cs_start = 8, cs_end = 22, cs_doc = ''between 5 and 10 cases'',
      cs_label = ''5 and 10 cases'',
      cs_metadata = \<lparr>md_text = ''5 and 10 cases'',
                     md_attributes = [''case'', ''min''], md_count = PyInt 5\<rparr>\<rparr>
     \<lparr>cs_start = 10, cs_end = 16, cs_doc = ''between 5 and 10 cases'',
      cs_label = ''and 10'',
      cs_metadata = \<lparr>md_text = ''10'',
                     md_attributes = [''case'', ''max''], md_count = PyInt 10\<rparr>\<rparr>"
  using annotate_range_doc by (simp add: CountSpan_overlaps_def)

section \<open>The count constituents through the pipeline\<close>

lemma counts_satisfy_append [simp]:
  "counts_satisfy P (xs @ ys) = (counts_satisfy P xs \<and> counts_satisfy P ys)"
  by (auto simp add: counts_satisfy_def)

lemma counts_satisfy_Nil [simp]: "counts_satisfy P []"
  by (simp add: counts_satisfy_def)

lemma counts_satisfy_subset:
  "counts_satisfy P ys \<Longrightarrow> set xs \<subseteq> set ys \<Longrightarrow> counts_satisfy P xs"
  by (auto simp add: counts_satisfy_def)

lemma counts_satisfy_group:
  assumes "counts_satisfy P bs" and "l \<noteq> Some ''count''"
  shows "counts_satisfy P [SpanGroup bs l]"
  using assms by (auto simp add: counts_satisfy_def)

lemma counts_satisfy_groups:
  assumes "\<And>x. x \<in> set xs \<Longrightarrow> \<exists>bs l. x = SpanGroup bs l \<and> counts_satisfy P bs \<and> l \<noteq> Some ''count''"
  shows "counts_satisfy P xs"
  unfolding counts_satisfy_def
proof (intro ballI)
  fix m g assume m: "m \<in> set xs" and g: "g \<in> set (groupdict m ''count'')"
  from assms [OF m] obtain bs l where "m = SpanGroup bs l" "counts_satisfy P bs" "l \<noteq> Some ''count''"
    by blast
  then have "counts_satisfy P [m]" using counts_satisfy_group by blast
  then show "P g" using g by (simp add: counts_satisfy_def)
qed

lemma counts_satisfy_label:
  assumes "counts_satisfy P spans" and "name \<noteq> Some ''count''"
  shows "counts_satisfy P (label name spans)"
proof (rule counts_satisfy_groups)
  fix x assume "x \<in> set (label name spans)"
  then obtain s where s: "s \<in> set spans" and x: "x = SpanGroup [s] name"
    by (auto simp add: label_def)
  have "counts_satisfy P [s]" using assms(1) s by (simp add: counts_satisfy_def)
  then show "\<exists>bs l. x = SpanGroup bs l \<and> counts_satisfy P bs \<and> l \<noteq> Some ''count''"
    using x assms(2) by blast
qed

lemma chains_elements:
  "c \<in> set (chains g Ts) \<Longrightarrow> s \<in> set c \<Longrightarrow> \<exists>T \<in> set Ts. s \<in> set T"
proof (induction g Ts arbitrary: c rule: chains.induct)
  case (1 g)
  then show ?case by simp
next
  case (2 g T)
  then show ?case by auto
next
  case (3 g T U Ts)
  from "3.prems"(1) obtain h c' where h: "h \<in> set T" and c': "c' \<in> set (chains g (U # Ts))"
    and c: "c = h # c'"
    by auto
  from "3.prems"(2) c consider "s = h" | "s \<in> set c'" by auto
  then show ?case
  proof cases
    case 1
    then show ?thesis using h by auto
  next
    case 2
    then show ?thesis using "3.IH" [OF h c'] by auto
  qed
qed

lemma counts_satisfy_follows:
  assumes "\<And>T. T \<in> set Ts \<Longrightarrow> counts_satisfy P T"
  shows "counts_satisfy P (follows g Ts)"
proof (rule counts_satisfy_groups)
  fix x assume "x \<in> set (follows g Ts)"
  then obtain c where c: "c \<in> set (chains g Ts)" and x: "x = SpanGroup c None"
    by (auto simp add: follows_def)
  have "counts_satisfy P c"
    unfolding counts_satisfy_def
  proof (intro ballI)
    fix m k assume m: "m \<in> set c" and k: "k \<in> set (groupdict m ''count'')"
    from chains_elements [OF c m] obtain T where "T \<in> set Ts" "m \<in> set T" by blast
    then show "P k" using assms k by (auto simp add: counts_satisfy_def)
  qed
  then show "\<exists>bs l. x = SpanGroup bs l \<and> counts_satisfy P bs \<and> l \<noteq> Some ''count''"
    using x by blast
qed

lemma counts_satisfy_nearby:
  assumes "counts_satisfy P tier" and "counts_satisfy P other_tier"
  shows "counts_satisfy P (with_nearby_spans_from max_dist tier other_tier)"
proof (rule counts_satisfy_groups)
  fix x assume "x \<in> set (with_nearby_spans_from max_dist tier other_tier)"
  then obtain s where s: "s \<in> set tier"
    and xs: "x \<in> set (case filter (\<lambda>t. distance s t \<le> max_dist) other_tier of
                          [] \<Rightarrow> [] | t # ts \<Rightarrow> [SpanGroup (s # t # ts) None])"
    by (auto simp add: with_nearby_spans_from_def)
  then obtain t ts where f: "filter (\<lambda>t. distance s t \<le> max_dist) other_tier = t # ts"
    and x: "x = SpanGroup (s # t # ts) None"
    by (cases "filter (\<lambda>t. distance s t \<le> max_dist) other_tier") auto
  have "set (t # ts) \<subseteq> set other_tier"
    using f by (metis filter_is_subset)
  then have "counts_satisfy P (t # ts)"
    using assms(2) counts_satisfy_subset by blast
  moreover have "counts_satisfy P [s]" using assms(1) s by (simp add: counts_satisfy_def)
  ultimately have "counts_satisfy P (s # t # ts)"
    by (simp add: counts_satisfy_def)
  then show "\<exists>bs l. x = SpanGroup bs l \<and> counts_satisfy P bs \<and> l \<noteq> Some ''count''"
    using x by blast
qed

lemma counts_satisfy_without_overlaps:
  "counts_satisfy P tier \<Longrightarrow> counts_satisfy P (without_overlaps tier other_tier)"
  by (rule counts_satisfy_subset) (auto simp add: without_overlaps_def)

lemma counts_satisfy_optimal:
  "counts_satisfy P tier \<Longrightarrow> counts_satisfy P (optimal_span_set w tier)"
  using counts_satisfy_subset optimal_span_set_subset by blast

lemma counts_satisfy_tokens: "counts_satisfy P (map token_span ts)"
  by (auto simp add: counts_satisfy_def token_span_def)

lemma counts_satisfy_search_regex:
  "name \<noteq> Some ''count'' \<Longrightarrow> counts_satisfy P (search_regex d regex name)"
  unfolding search_regex_def search_spans_for_regex_def
  by (rule counts_satisfy_label)
    (auto intro: counts_satisfy_subset [OF counts_satisfy_tokens [of P "spacy_tokens d"]])

lemma counts_satisfy_search_lemmas:
  "name \<noteq> Some ''count'' \<Longrightarrow> counts_satisfy P (search_lemmas d lemmas name)"
  unfolding search_lemmas_def
  by (rule counts_satisfy_label) (auto simp add: counts_satisfy_tokens)

lemma counts_satisfy_grouped:
  assumes "counts_satisfy P candidates"
  shows "counts_satisfy P (concat (map snd (group_spans_by_containing_span tier candidates partial)))"
  using assms by (auto simp add: counts_satisfy_def group_spans_by_containing_span_def)

lemma counts_satisfy_follows_list:
  "list_all (counts_satisfy P) Ts \<Longrightarrow> counts_satisfy P (follows g Ts)"
  by (rule counts_satisfy_follows) (simp add: list_all_iff)

lemma counts_satisfy_modifiers:
  assumes "\<And>ls. ls \<in> set groups \<Longrightarrow> hd ls \<noteq> ''count''"
    and "counts_satisfy P tier"
  shows "counts_satisfy P
           (fold (\<lambda>ls count_descriptions.
                    count_descriptions @
                    with_nearby_spans_from n count_descriptions
                      (search_lemmas d ls (Some (hd ls))))
                 groups tier)"
  using assms
proof (induction groups arbitrary: tier)
  case Nil
  then show ?case by simp
next
  case (Cons ls groups)
  have "hd ls \<noteq> ''count''" using Cons.prems(1) by simp
  then have "counts_satisfy P (search_lemmas d ls (Some (hd ls)))"
    by (simp add: counts_satisfy_search_lemmas)
  then have "counts_satisfy P
      (tier @ with_nearby_spans_from n tier (search_lemmas d ls (Some (hd ls))))"
    using Cons.prems(2) by (simp add: counts_satisfy_nearby)
  then show ?case using Cons.IH Cons.prems(1) by simp
qed

lemma counts_satisfy_count_descriptions:
  "counts_satisfy P counts_tier \<Longrightarrow> counts_satisfy P (count_descriptions_of cfg d counts_tier)"
  unfolding count_descriptions_of_def
  by (rule counts_satisfy_modifiers) (auto simp add: modifier_lemma_groups_def)

lemma counts_satisfy_case_descriptions: "counts_satisfy P (case_descriptions_of cfg d)"
proof -
  have l: "counts_satisfy P (search_lemmas d ls name)" if "name \<noteq> Some ''count''" for ls name
    using that by (rule counts_satisfy_search_lemmas)
  have ll: "counts_satisfy P (label (Some a) (search_lemmas d ls None))" if "a \<noteq> ''count''" for a ls
    using that by (simp add: counts_satisfy_label l)
  show ?thesis
    unfolding case_descriptions_of_def Let_def
    by (simp add: l ll counts_satisfy_nearby counts_satisfy_optimal counts_satisfy_follows_list)
qed

lemma counts_satisfy_singular:
  "counts_satisfy P case_descriptions \<Longrightarrow>
   counts_satisfy P (singular_case_descriptions_of case_descriptions singular_case_spans)"
  by (rule counts_satisfy_subset)
    (auto simp add: singular_case_descriptions_of_def group_spans_by_containing_span_def)

lemma counts_satisfy_counts_tier:
  "counts_satisfy P counts \<Longrightarrow> counts_satisfy P (counts_tier_of cfg d counts)"
  unfolding counts_tier_of_def Let_def
  by (simp add: counts_satisfy_without_overlaps counts_satisfy_optimal counts_satisfy_follows_list
      counts_satisfy_label counts_satisfy_search_regex)

lemma annotated_counts_of_counts:
  assumes "annotated_counts_of cfg d = Inr ms"
  shows "\<exists>counts.
           count_candidates (parse_spelled_number cfg) (doc_text d) (map ne_span_of (spacy_nes d)) =
             Inr counts \<and>
           (\<forall>P. counts_satisfy P (counts_tier_of cfg d counts) \<longrightarrow> counts_satisfy P ms)"
proof -
  from assms obtain counts sing where
    c: "count_candidates (parse_spelled_number cfg) (doc_text d) (map ne_span_of (spacy_nes d)) = Inr counts"
    and ms: "ms = optimal_span_set (prefer_num_spans cfg)
       (concat (map snd (group_spans_by_containing_span (map sentence_span (spacy_sentences d))
          (with_nearby_spans_from 50 (case_descriptions_of cfg d)
             (count_descriptions_of cfg d (counts_tier_of cfg d counts)) @
           follows (follows_max_dist cfg)
             [search_regex d regex_deaths (Some ''death''), counts_tier_of cfg d counts] @
           count_descriptions_of cfg d (counts_tier_of cfg d counts) @
           singular_case_descriptions_of (case_descriptions_of cfg d) sing) False)))"
    by (auto simp add: annotated_counts_of_def Let_def split: sum.splits)
  have "counts_satisfy P ms" if t: "counts_satisfy P (counts_tier_of cfg d counts)" for P
    unfolding ms
    by (intro counts_satisfy_optimal counts_satisfy_grouped)
      (simp add: t counts_satisfy_nearby counts_satisfy_case_descriptions
        counts_satisfy_count_descriptions counts_satisfy_singular counts_satisfy_follows_list
        counts_satisfy_search_regex)
  with c show ?thesis by blast
qed

section \<open>Counts and dates\<close>

lemma counts_tier_of_no_date:
  "s \<in> set (counts_tier_of cfg d counts) \<Longrightarrow> \<not> list_ex (overlaps s) (dates d)"
  by (simp add: counts_tier_of_def Let_def without_overlaps_def)

lemma counts_tier_of_candidate:
  assumes "s \<in> set (counts_tier_of cfg d counts)"
  shows "s \<in> set counts \<or>
         s \<in> set (follows (follows_max_dist cfg)
                     [counts,
                      label (Some ''range'')
                        (follows (follows_max_dist cfg) [search_regex d regex_to_and_or None, counts])])"
proof -
  from assms have "s \<in> set (optimal_span_set (prefer_default cfg)
      (follows (follows_max_dist cfg)
         [counts,
          label (Some ''range'')
            (follows (follows_max_dist cfg) [search_regex d regex_to_and_or None, counts])] @ counts))"
    by (simp add: counts_tier_of_def Let_def without_overlaps_def)
  then show ?thesis using optimal_span_set_subset by fastforce
qed

lemma counts_tier_of_counts_no_date:
  "counts_satisfy (\<lambda>g. \<not> list_ex (overlaps g) (dates d)) (counts_tier_of cfg d counts)"
  unfolding counts_satisfy_def
proof (intro ballI)
  fix m g assume m: "m \<in> set (counts_tier_of cfg d counts)"
    and g: "g \<in> set (groupdict m ''count'')"
  note w = groupdict_within [OF g]
  show "\<not> list_ex (overlaps g) (dates d)"
  proof
    assume "list_ex (overlaps g) (dates d)"
    then obtain dt where dt: "dt \<in> set (dates d)" and o: "overlaps g dt"
      by (auto simp add: list_ex_iff)
    have "overlaps m dt" using o w by (simp add: overlaps_def)
    then show False using counts_tier_of_no_date [OF m] dt by (auto simp add: list_ex_iff)
  qed
qed

lemma annotated_counts_year_doc:
  "annotated_counts_of scenario_config year_doc =
     Inr [SpanGroup
            [SpanGroup [SpanGroup [AnnoSpan 2 7 None] None] (Some ''case''),
             SpanGroup [AnnoSpan 0 1 (Some ''CARDINAL'')] (Some ''count'')]
            None]"
  by code_simp

lemma counts_tier_year_doc:
  "counts_tier_of scenario_config year_doc
     [SpanGroup [AnnoSpan 0 1 (Some ''CARDINAL'')] (Some ''count''),
      SpanGroup [AnnoSpan 11 15 (Some ''CARDINAL'')] (Some ''count'')] =
   [SpanGroup [AnnoSpan 0 1 (Some ''CARDINAL'')] (Some ''count'')]"
  by code_simp

text \<open>
  C2 (as amended). A count candidate (a count, or a range of counts) that overlaps a span
  of the tier \<^verbatim>\<open>dates\<close> is dropped from the tier of counts as a whole: every span that is
  kept is one of the candidates, unchanged, and overlaps no date. In every match that
  the final selection chooses, the constituents with the role \<^verbatim>\<open>count\<close> overlap no date.
\<close>

theorem counts_overlapping_dates_dropped:
  "(\<forall>s \<in> set (counts_tier_of cfg d counts).
      \<not> list_ex (overlaps s) (dates d) \<and>
      (s \<in> set counts \<or>
       s \<in> set (follows (follows_max_dist cfg)
                   [counts,
                    label (Some ''range'')
                      (follows (follows_max_dist cfg) [search_regex d regex_to_and_or None, counts])]))) \<and>
   (annotated_counts_of cfg d = Inr ms \<longrightarrow>
      (\<forall>m \<in> set ms. \<forall>g \<in> set (groupdict m ''count''). \<not> list_ex (overlaps g) (dates d)))"
proof (intro conjI ballI impI)
  fix s assume "s \<in> set (counts_tier_of cfg d counts)"
  then show "\<not> list_ex (overlaps s) (dates d)" by (rule counts_tier_of_no_date)
next
  fix s assume "s \<in> set (counts_tier_of cfg d counts)"
  then show "s \<in> set counts \<or>
       s \<in> set (follows (follows_max_dist cfg)
                   [counts,
                    label (Some ''range'')
                      (follows (follows_max_dist cfg) [search_regex d regex_to_and_or None, counts])])"
    by (rule counts_tier_of_candidate)
next
  fix m g assume ms: "annotated_counts_of cfg d = Inr ms" and m: "m \<in> set ms"
    and g: "g \<in> set (groupdict m ''count'')"
  from annotated_counts_of_counts [OF ms] obtain cts where
    "counts_satisfy (\<lambda>g. \<not> list_ex (overlaps g) (dates d)) (counts_tier_of cfg d cts) \<longrightarrow>
     counts_satisfy (\<lambda>g. \<not> list_ex (overlaps g) (dates d)) ms"
    by blast
  then have "counts_satisfy (\<lambda>g. \<not> list_ex (overlaps g) (dates d)) ms"
    using counts_tier_of_counts_no_date by blast
  then show "\<not> list_ex (overlaps g) (dates d)" using m g by (simp add: counts_satisfy_def)
qed

theorem counts_overlapping_dates_dropped_witness:
  "counts_tier_of scenario_config year_doc
     [SpanGroup [AnnoSpan 0 1 (Some ''CARDINAL'')] (Some ''count''),
      SpanGroup [AnnoSpan 11 15 (Some ''CARDINAL'')] (Some ''count'')] =
   [SpanGroup [AnnoSpan 0 1 (Some ''CARDINAL'')] (Some ''count'')] \<and>
   annotated_counts_of scenario_config year_doc =
     Inr [SpanGroup
            [SpanGroup [SpanGroup [AnnoSpan 2 7 None] None] (Some ''case''),
             SpanGroup [AnnoSpan 0 1 (Some ''CARDINAL'')] (Some ''count'')]
            None] \<and>
   \<not> list_ex (overlaps (SpanGroup [AnnoSpan 0 1 (Some ''CARDINAL'')] (Some ''count'')))
        (dates year_doc)"
proof -
  let ?c5 = "SpanGroup [AnnoSpan 0 1 (Some ''CARDINAL'')] (Some ''count'')"
  let ?m = "SpanGroup [SpanGroup [SpanGroup [AnnoSpan 2 7 None] None] (Some ''case''), ?c5] None"
  have g: "?c5 \<in> set (groupdict ?m ''count'')" by simp
  from counts_overlapping_dates_dropped
    [of scenario_config year_doc "[?c5, SpanGroup [AnnoSpan 11 15 (Some ''CARDINAL'')] (Some ''count'')]" "[?m]"]
  have "\<forall>m \<in> set [?m]. \<forall>g \<in> set (groupdict m ''count''). \<not> list_ex (overlaps g) (dates year_doc)"
    using annotated_counts_year_doc by blast
  then have "\<not> list_ex (overlaps ?c5) (dates year_doc)" using g by simp
  then show ?thesis using annotated_counts_year_doc counts_tier_year_doc by simp
qed

theorem count_span_over_date:
  "annotate scenario_config date_doc =
     Inr [\<lparr>cs_start = 0, cs_end = 18, cs_doc = ''12 since 2020 died'',
           cs_label = ''12 since 2020 died'',
           cs_metadata = \<lparr>md_text = ''12 since 2020 died'',
                          md_attributes = [''case'', ''death''], md_count = PyInt 12\<rparr>\<rparr>] \<and>
   dates date_doc = [AnnoSpan 9 13 (Some ''2020'')] \<and>
   (0::nat) < span_end (AnnoSpan 9 13 (Some ''2020'')) \<and>
   span_start (AnnoSpan 9 13 (Some ''2020'')) < (18::nat)"
  using annotate_date_doc by (simp add: date_doc_def)

section \<open>The serialised count spans\<close>

lemma span_text_single [simp]: "span_text txt (SpanGroup [s] l) = span_text txt s"
  by (simp add: span_text_def)

lemma ne_counts_valid:
  assumes "groupdict ne_span ''count'' = []" and "ne_counts psn txt ne_span = Inr cs"
  shows "counts_satisfy (\<lambda>g. fst (is_valid_count psn (span_text txt g)) = Inr True) cs"
proof (cases "fst (is_valid_count psn (span_text txt ne_span))")
  case (Inl e)
  then show ?thesis using assms(2) by (simp add: ne_counts_def split: if_splits)
next
  case (Inr v)
  show ?thesis
  proof (cases v)
    case True
    then show ?thesis
      using assms Inr by (auto simp add: ne_counts_def counts_satisfy_def split: if_splits)
  next
    case False
    then show ?thesis
      using assms Inr
      by (auto simp add: ne_counts_def counts_satisfy_def AnnoSpan_init_def
          split: if_splits list.splits prod.splits sum.splits)
  qed
qed

lemma count_candidates_valid:
  assumes "\<And>n. n \<in> set nes \<Longrightarrow> groupdict n ''count'' = []"
    and "count_candidates psn txt nes = Inr cs"
  shows "counts_satisfy (\<lambda>g. fst (is_valid_count psn (span_text txt g)) = Inr True) cs"
  using assms
proof (induction nes arbitrary: cs)
  case Nil
  then show ?case by simp
next
  case (Cons n nes)
  from Cons.prems(2) obtain c1 c2 where c1: "ne_counts psn txt n = Inr c1"
    and c2: "count_candidates psn txt nes = Inr c2" and cs: "cs = c1 @ c2"
    by (auto split: sum.splits)
  have "groupdict n ''count'' = []" using Cons.prems(1) by simp
  then have "counts_satisfy (\<lambda>g. fst (is_valid_count psn (span_text txt g)) = Inr True) c1"
    using c1 by (rule ne_counts_valid)
  moreover have "counts_satisfy (\<lambda>g. fst (is_valid_count psn (span_text txt g)) = Inr True) c2"
    using Cons.IH [OF _ c2] Cons.prems(1) by simp
  ultimately show ?case by (simp add: cs)
qed

lemma annotated_counts_valid:
  assumes "annotated_counts_of cfg d = Inr ms"
  shows "counts_satisfy
           (\<lambda>g. fst (is_valid_count (parse_spelled_number cfg) (span_text (doc_text d) g)) = Inr True) ms"
proof -
  from annotated_counts_of_counts [OF assms] obtain counts where
    c: "count_candidates (parse_spelled_number cfg) (doc_text d) (map ne_span_of (spacy_nes d)) = Inr counts"
    and t: "\<And>P. counts_satisfy P (counts_tier_of cfg d counts) \<Longrightarrow> counts_satisfy P ms"
    by blast
  have "counts_satisfy
      (\<lambda>g. fst (is_valid_count (parse_spelled_number cfg) (span_text (doc_text d) g)) = Inr True) counts"
    using c by (rule count_candidates_valid [rotated]) (auto simp add: ne_span_of_def)
  then show ?thesis using t counts_satisfy_counts_tier by blast
qed

lemma valid_count_integral:
  assumes "fst (is_valid_count psn s) = Inr True"
  shows "\<exists>n::int. py_number (psn s) = Some (of_int n) \<and> n \<le> 1000000000"
proof (cases s)
  case Nil
  then show ?thesis using assms by (simp add: is_valid_count_empty)
next
  case (Cons c cs)
  then show ?thesis using assms by (simp add: is_valid_count_Cons)
qed

lemma match_count_spans_count:
  assumes "match_count_spans psn txt m = Inr cm" and "c \<in> set cm"
  shows "md_count (cs_metadata c) = PyInt 1 \<or>
         (\<exists>g \<in> set (groupdict m ''count''). md_count (cs_metadata c) = psn (span_text txt g))"
proof (cases "groupdict m ''range''")
  case Nil
  then show ?thesis
    using assms
    by (auto simp add: match_count_spans_def CountSpan_init_def split: list.splits)
next
  case (Cons r rs)
  then have "r \<in> set (groupdict m ''range'')" by simp
  then have sub: "set (groupdict r ''count'') \<subseteq> set (groupdict m ''count'')"
    by (rule groupdict_nested)
  have "groupdict r ''count'' \<noteq> []"
    using assms(1) Cons by (auto simp add: match_count_spans_def Let_def)
  then obtain u us where u: "groupdict r ''count'' = u # us"
    by (cases "groupdict r ''count''") auto
  then have um: "u \<in> set (groupdict m ''count'')" using sub by auto
  have "md_count (cs_metadata c) =
          (case groupdict m ''count'' of g # _ \<Rightarrow> psn (span_text txt g) | [] \<Rightarrow> PyInt 1) \<or>
        md_count (cs_metadata c) = psn (span_text txt u)"
    using assms Cons u by (auto simp add: match_count_spans_def CountSpan_init_def Let_def)
  then show ?thesis using um by (cases "groupdict m ''count''") auto
qed

lemma matching_attributes_subset: "set (matching_attributes_of m) \<subseteq> set attributes"
proof -
  have c: "''case'' \<in> set attributes" by (simp add: attributes_def)
  show ?thesis
    unfolding matching_attributes_of_def Let_def using c by auto
qed

lemma match_count_spans_sorted:
  assumes "match_count_spans psn txt m = Inr cm" and "c \<in> set cm"
  shows "sorted (md_attributes (cs_metadata c)) \<and> set (md_attributes (cs_metadata c)) \<subseteq> set attributes"
proof -
  have mm: "''min'' \<in> set attributes" "''max'' \<in> set attributes"
    by (simp_all add: attributes_def)
  have "sorted (md_attributes (cs_metadata c))"
    using assms
    by (auto simp add: match_count_spans_def CountSpan_init_def Let_def split: list.splits)
  moreover have "set (md_attributes (cs_metadata c)) \<subseteq> set attributes"
    using match_count_spans_attributes [OF assms] matching_attributes_subset [of m] mm by blast
  ultimately show ?thesis by simp
qed

end
